theory Spec2Isabelle
  imports Complex_Main "HOL-Library.Sublist"
begin

section \<open>Tensors\<close>

text \<open>
  The adapter code of \<^verbatim>\<open>extensions-builtin/Lora/network_oft.py\<close> works on torch
  tensors. A tensor of rank 2 is modelled as the list of its rows, a tensor of rank 3 as
  the list of its blocks. Elements are exact reals: rounding of the floating point element
  types is outside this model, and a conversion between element types or devices
  (\<^verbatim>\<open>.to(device, dtype=...)\<close>) changes nothing. Every exception the Python code can
  raise is a value of \<open>error\<close>.
\<close>

datatype error = KeyError | AttributeError | ZeroDivisionError | RuntimeError | LinAlgError

type_synonym vec = "real list"
type_synonym mat = "real list list"
type_synonym tensor3 = "real list list list"

definition rbind :: "error + 'a \<Rightarrow> ('a \<Rightarrow> error + 'b) \<Rightarrow> error + 'b" where
  "rbind x f = (case x of Inl e \<Rightarrow> Inl e | Inr v \<Rightarrow> f v)"

fun sequence :: "(error + 'a) list \<Rightarrow> error + 'a list" where
  "sequence [] = Inr []"
| "sequence (x # xs) = rbind x (\<lambda>v. rbind (sequence xs) (\<lambda>vs. Inr (v # vs)))"

definition rows :: "mat \<Rightarrow> nat" where
  "rows A = length A"

definition cols :: "mat \<Rightarrow> nat" where
  "cols A = (case A of [] \<Rightarrow> 0 | r # _ \<Rightarrow> length r)"

text \<open>\<open>mat r c A\<close>: the nested list \<open>A\<close> is a tensor of shape \<open>(r, c)\<close>.\<close>

definition mat :: "nat \<Rightarrow> nat \<Rightarrow> mat \<Rightarrow> bool" where
  "mat r c A = (length A = r \<and> (\<forall>row \<in> set A. length row = c))"

subsection \<open>Broadcasting elementwise operations\<close>

text \<open>
  Two sizes of one dimension are compatible when they are equal or one of them is 1; the
  operand of size 1 is repeated. Incompatible shapes raise a \<^verbatim>\<open>RuntimeError\<close>.
\<close>

definition bdim :: "nat \<Rightarrow> nat \<Rightarrow> nat option" where
  "bdim a b = (if a = b then Some a else if a = 1 then Some b else if b = 1 then Some a else None)"

definition expand :: "nat \<Rightarrow> 'a list \<Rightarrow> 'a list" where
  "expand n xs = (if length xs = n then xs else replicate n (hd xs))"

definition broadcast2 :: "(real \<Rightarrow> real \<Rightarrow> real) \<Rightarrow> mat \<Rightarrow> mat \<Rightarrow> error + mat" where
  "broadcast2 f A B =
     (case bdim (rows A) (rows B) of
        None \<Rightarrow> Inl RuntimeError
      | Some r \<Rightarrow>
          (case bdim (cols A) (cols B) of
             None \<Rightarrow> Inl RuntimeError
           | Some c \<Rightarrow> Inr (map2 (map2 f) (expand r (map (expand c) A)) (expand r (map (expand c) B)))))"

definition broadcast3 :: "(real \<Rightarrow> real \<Rightarrow> real) \<Rightarrow> tensor3 \<Rightarrow> tensor3 \<Rightarrow> error + tensor3" where
  "broadcast3 f X Y =
     (case bdim (length X) (length Y) of
        None \<Rightarrow> Inl RuntimeError
      | Some n \<Rightarrow> sequence (map2 (broadcast2 f) (expand n X) (expand n Y)))"

definition tadd :: "mat \<Rightarrow> mat \<Rightarrow> error + mat" where
  "tadd = broadcast2 (+)"

definition tadd3 :: "tensor3 \<Rightarrow> tensor3 \<Rightarrow> error + tensor3" where
  "tadd3 = broadcast3 (+)"

definition tsub3 :: "tensor3 \<Rightarrow> tensor3 \<Rightarrow> error + tensor3" where
  "tsub3 = broadcast3 (-)"

definition scale_m :: "real \<Rightarrow> mat \<Rightarrow> mat" where
  "scale_m s A = map (map (\<lambda>x. s * x)) A"

definition scale3 :: "real \<Rightarrow> tensor3 \<Rightarrow> tensor3" where
  "scale3 s X = map (scale_m s) X"

subsection \<open>Shape operations, norm, identity\<close>

definition col :: "mat \<Rightarrow> nat \<Rightarrow> vec" where
  "col A j = map (\<lambda>row. row ! j) A"

definition transpose_m :: "mat \<Rightarrow> mat" where
  "transpose_m A = map (col A) [0..<cols A]"

definition transpose12 :: "tensor3 \<Rightarrow> tensor3" where
  "transpose12 X = map transpose_m X"

definition flatten :: "tensor3 \<Rightarrow> vec" where
  "flatten X = concat (concat X)"

definition norm_t :: "vec \<Rightarrow> real" where
  "norm_t v = sqrt (sum_list (map (\<lambda>x. x\<^sup>2) v))"

definition clamp_max :: "real \<Rightarrow> real \<Rightarrow> real" where
  "clamp_max x m = min x m"

definition eye :: "nat \<Rightarrow> mat" where
  "eye n = map (\<lambda>i. map (\<lambda>j. if i = j then 1 else 0) [0..<n]) [0..<n]"

definition repeat_t :: "nat \<Rightarrow> mat \<Rightarrow> tensor3" where
  "repeat_t n A = replicate n A"

fun block_diag :: "mat list \<Rightarrow> mat" where
  "block_diag [] = []"
| "block_diag (B # Bs) =
     map (\<lambda>row. row @ replicate (cols (block_diag Bs)) 0) B
     @ map (\<lambda>row. replicate (cols B) 0 @ row) (block_diag Bs)"

subsection \<open>Matrix product\<close>

definition dot :: "vec \<Rightarrow> vec \<Rightarrow> real" where
  "dot u v = sum_list (map2 (*) u v)"

definition vecmat :: "vec \<Rightarrow> mat \<Rightarrow> vec" where
  "vecmat v B = map (\<lambda>j. dot v (col B j)) [0..<cols B]"

definition mat_mul :: "mat \<Rightarrow> mat \<Rightarrow> mat" where
  "mat_mul A B = map (\<lambda>row. vecmat row B) A"

definition matmul :: "mat \<Rightarrow> mat \<Rightarrow> error + mat" where
  "matmul A B = (if cols A = rows B then Inr (mat_mul A B) else Inl RuntimeError)"

definition matmul3 :: "tensor3 \<Rightarrow> tensor3 \<Rightarrow> error + tensor3" where
  "matmul3 X Y =
     (case bdim (length X) (length Y) of
        None \<Rightarrow> Inl RuntimeError
      | Some n \<Rightarrow> sequence (map2 matmul (expand n X) (expand n Y)))"

subsection \<open>Matrix inverse\<close>

text \<open>
  \<^verbatim>\<open>Tensor.inverse()\<close> inverts every block of a batch of square matrices and raises when
  a block is singular. Over the reals the inverse is unique, so any exact elimination
  computes it: below, Gauss-Jordan elimination on the rows of \<open>[A | I]\<close>, each row a pair
  of its left and its right half. For column \<open>k\<close> a row with a non-zero entry in that column
  is taken from the rows not yet used, normalised, and subtracted from all other rows.
\<close>

type_synonym aug = "vec \<times> vec"

definition aug_scale :: "real \<Rightarrow> aug \<Rightarrow> aug" where
  "aug_scale c r = (map (\<lambda>x. c * x) (fst r), map (\<lambda>x. c * x) (snd r))"

definition aug_sub :: "aug \<Rightarrow> aug \<Rightarrow> aug" where
  "aug_sub r p = (map2 (-) (fst r) (fst p), map2 (-) (snd r) (snd p))"

definition eliminate :: "nat \<Rightarrow> aug \<Rightarrow> aug \<Rightarrow> aug" where
  "eliminate k p r = aug_sub r (aug_scale (fst r ! k) p)"

fun find_pivot :: "nat \<Rightarrow> aug list \<Rightarrow> (aug \<times> aug list) option" where
  "find_pivot k [] = None"
| "find_pivot k (r # rs) =
     (if fst r ! k \<noteq> 0 then Some (r, rs)
      else (case find_pivot k rs of
              None \<Rightarrow> None
            | Some (p, rest) \<Rightarrow> Some (p, r # rest)))"

function gauss_jordan :: "nat \<Rightarrow> aug list \<Rightarrow> aug list \<Rightarrow> aug list option" where
  "gauss_jordan k fin [] = Some fin"
| "gauss_jordan k fin (t # ts) =
     (case find_pivot k (t # ts) of
        None \<Rightarrow> None
      | Some (p, rest) \<Rightarrow>
          gauss_jordan (Suc k)
            (map (eliminate k (aug_scale (1 / (fst p ! k)) p)) fin @ [aug_scale (1 / (fst p ! k)) p])
            (map (eliminate k (aug_scale (1 / (fst p ! k)) p)) rest))"
  by pat_completeness auto
termination
proof (relation "measure (\<lambda>(k, fin, todo). length todo)")
  show "wf (measure (\<lambda>(k, fin, todo). length todo))" by simp
next
  fix k :: nat and fin :: "aug list" and t ts x2 p rest
  assume found: "find_pivot k (t # ts) = Some x2" "(p, rest) = x2"
  have shorter: "find_pivot k rs = Some (q, rs') \<Longrightarrow> Suc (length rs') = length rs" for rs q rs'
    by (induction rs arbitrary: q rs') (auto split: if_splits option.splits)
  from found have "Suc (length rest) = length (t # ts)"
    using shorter [of "t # ts" p rest] by simp
  then show "((Suc k, map (eliminate k (aug_scale (1 / (fst p ! k)) p)) fin @ [aug_scale (1 / (fst p ! k)) p],
               map (eliminate k (aug_scale (1 / (fst p ! k)) p)) rest), k, fin, t # ts)
             \<in> measure (\<lambda>(k, fin, todo). length todo)"
    by simp
qed

definition inverse_m :: "mat \<Rightarrow> error + mat" where
  "inverse_m A =
     (if rows A \<noteq> cols A then Inl RuntimeError
      else (case gauss_jordan 0 [] (zip A (eye (rows A))) of
              None \<Rightarrow> Inl LinAlgError
            | Some rs \<Rightarrow> Inr (map snd rs)))"

definition inverse3 :: "tensor3 \<Rightarrow> error + tensor3" where
  "inverse3 X = sequence (map inverse_m X)"

section \<open>The adapter module\<close>

text \<open>
  The layer an adapter is attached to (\<^verbatim>\<open>self.sd_module\<close>): the name of its class and
  the two attributes the constructor reads; an attribute the layer does not have is \<open>None\<close>.
\<close>

record sd_module =
  class_name :: string
  out_features :: "nat option"
  out_channels :: "nat option"

text \<open>
  The entries of the dictionary \<^verbatim>\<open>weights.w\<close> that the constructor reads (a missing
  key is \<open>None\<close>), and the layer the weights belong to.
\<close>

record network_weights =
  w_oft_blocks :: "tensor3 option"
  w_alpha :: "real option"
  w_sd_module :: sd_module

record network =
  net_multiplier :: real

text \<open>
  Modelled from the spec: the accessor \<^verbatim>\<open>multiplier()\<close> of the base class
  \<^verbatim>\<open>network.NetworkModule\<close>, which is not among the sources. The spec has the
  multiplier as the adapter strength that the host currently holds for the network
  (``supplied by UI/config state external to this core'', ``may vary call-to-call'').
\<close>

definition multiplier :: "network \<Rightarrow> real" where
  "multiplier net = net_multiplier net"

record oft_module =
  oft_blocks :: tensor3
  alpha :: real
  dim :: nat
  num_blocks :: nat
  out_dim :: nat
  constraint :: real
  block_size :: nat
  oft_multiplier :: real

text \<open>
  \<^verbatim>\<open>self.out_dim\<close> after the \<^verbatim>\<open>if\<close>/\<^verbatim>\<open>elif\<close> of the constructor: \<open>Inr None\<close> when
  neither branch ran and the attribute was never assigned.
\<close>

definition assign_out_dim :: "sd_module \<Rightarrow> error + nat option" where
  "assign_out_dim m =
     (if sublist ''Linear'' (class_name m) then
        (case out_features m of None \<Rightarrow> Inl AttributeError | Some n \<Rightarrow> Inr (Some n))
      else if sublist ''Conv'' (class_name m) then
        (case out_channels m of None \<Rightarrow> Inl AttributeError | Some n \<Rightarrow> Inr (Some n))
      else Inr None)"

definition init :: "network \<Rightarrow> network_weights \<Rightarrow> error + oft_module" where
  "init net weights =
     (case w_oft_blocks weights of
        None \<Rightarrow> Inl KeyError
      | Some blocks \<Rightarrow>
     (case w_alpha weights of
        None \<Rightarrow> Inl KeyError
      | Some a \<Rightarrow>
     (case assign_out_dim (w_sd_module weights) of
        Inl e \<Rightarrow> Inl e
      | Inr None \<Rightarrow> Inl AttributeError
      | Inr (Some od) \<Rightarrow>
          if length blocks = 0 then Inl ZeroDivisionError
          else Inr \<lparr> oft_blocks = blocks, alpha = a, dim = length blocks,
                     num_blocks = length blocks, out_dim = od,
                     constraint = a * real od, block_size = od div length blocks,
                     oft_multiplier = multiplier net \<rparr>)))"

definition eps :: real where
  "eps = 1 / 10 ^ 8"

text \<open>Lines 41 to 44 of \<^verbatim>\<open>get_weight\<close>: the skew-symmetric, rescaled \<open>block_Q\<close>.\<close>

definition rescaled_Q :: "oft_module \<Rightarrow> error + tensor3" where
  "rescaled_Q self =
     rbind (tsub3 (oft_blocks self) (transpose12 (oft_blocks self))) (\<lambda>block_Q.
       let norm_Q = norm_t (flatten block_Q);
           new_norm_Q = clamp_max norm_Q (constraint self)
       in Inr (scale3 ((new_norm_Q + eps) / (norm_Q + eps)) block_Q))"

text \<open>Lines 41 to 46 of \<^verbatim>\<open>get_weight\<close>: \<open>block_R\<close>, the Cayley transform of every block.\<close>

definition block_R :: "oft_module \<Rightarrow> error + tensor3" where
  "block_R self =
     rbind (rescaled_Q self) (\<lambda>block_Q.
       let I = repeat_t (num_blocks self) (eye (block_size self)) in
       rbind (tadd3 I block_Q) (\<lambda>num.
       rbind (tsub3 I block_Q) (\<lambda>den.
       rbind (inverse3 den) (\<lambda>inv.
       matmul3 num inv))))"

definition get_weight :: "oft_module \<Rightarrow> error + mat" where
  "get_weight self =
     rbind (block_R self) (\<lambda>block_R.
       let I = repeat_t (num_blocks self) (eye (block_size self)) in
       rbind (tadd3 (scale3 (oft_multiplier self) block_R) (scale3 (1 - oft_multiplier self) I))
         (\<lambda>block_R_weighted. Inr (block_diag block_R_weighted)))"

text \<open>
  \<^verbatim>\<open>calc_updown\<close> repeats the computation on the converted block parameters. Its last
  call, \<^verbatim>\<open>finalize_updown\<close> of the base class, is not among the sources and is a
  parameter: it receives \<open>updown\<close>, the original weight and the output shape.
\<close>

definition to_dtype :: "tensor3 \<Rightarrow> tensor3" where
  "to_dtype X = X"

text \<open>Lines 54 to 63 of \<^verbatim>\<open>calc_updown\<close>: the matrix \<open>R\<close> assembled there.\<close>

definition calc_updown_R :: "oft_module \<Rightarrow> mat \<Rightarrow> error + mat" where
  "calc_updown_R self orig_weight =
     (let blocks = to_dtype (oft_blocks self) in
      rbind (tsub3 blocks (transpose12 blocks)) (\<lambda>block_Q.
        let norm_Q = norm_t (flatten block_Q);
            new_norm_Q = clamp_max norm_Q (constraint self);
            block_Q = scale3 ((new_norm_Q + eps) / (norm_Q + eps)) block_Q;
            I = repeat_t (num_blocks self) (eye (block_size self))
        in
        rbind (tadd3 I block_Q) (\<lambda>num.
        rbind (tsub3 I block_Q) (\<lambda>den.
        rbind (inverse3 den) (\<lambda>inv.
        rbind (matmul3 num inv) (\<lambda>block_R.
        rbind (tadd3 (scale3 (oft_multiplier self) block_R) (scale3 (1 - oft_multiplier self) I))
          (\<lambda>block_R_weighted. Inr (block_diag block_R_weighted))))))))"

definition calc_updown ::
  "(mat \<Rightarrow> mat \<Rightarrow> nat list \<Rightarrow> 'r) \<Rightarrow> oft_module \<Rightarrow> mat \<Rightarrow> error + 'r" where
  "calc_updown finalize_updown self orig_weight =
     rbind (calc_updown_R self orig_weight) (\<lambda>R.
     rbind (tadd orig_weight R) (\<lambda>updown.
       let output_shape = [rows R, cols orig_weight]
       in Inr (finalize_updown updown orig_weight output_shape)))"

section \<open>The rotation as the specification words it\<close>

text \<open>
  \<open>compute_rotation\<close> follows the seven steps of the specification, with the multiplier an
  argument of every call. It is compared with \<open>get_weight\<close> below.
\<close>

definition compute_rotation :: "tensor3 \<Rightarrow> real \<Rightarrow> nat \<Rightarrow> real \<Rightarrow> error + mat" where
  "compute_rotation block_params a od mult =
     (let nb = length block_params; bs = od div nb in
      rbind (tsub3 block_params (transpose12 block_params)) (\<lambda>Q.
        let norm = norm_t (flatten Q);
            new_norm = min norm (a * real od);
            Q = scale3 ((new_norm + eps) / (norm + eps)) Q;
            I = repeat_t nb (eye bs)
        in
        rbind (tadd3 I Q) (\<lambda>num.
        rbind (tsub3 I Q) (\<lambda>den.
        rbind (inverse3 den) (\<lambda>inv.
        rbind (matmul3 num inv) (\<lambda>R_block.
        rbind (tadd3 (scale3 mult R_block) (scale3 (1 - mult) I))
          (\<lambda>R_weighted. Inr (block_diag R_weighted))))))))"

section \<open>Well-formed adapters and examples\<close>

text \<open>
  The shape invariants of the data model: the block parameters have shape
  \<open>(num_blocks, block_size, block_size)\<close> with at least one block, and
  \<open>num_blocks * block_size = out_dim\<close>.
\<close>

definition tensor3 :: "nat \<Rightarrow> nat \<Rightarrow> nat \<Rightarrow> tensor3 \<Rightarrow> bool" where
  "tensor3 n r c X = (length X = n \<and> (\<forall>A \<in> set X. mat r c A))"

definition valid :: "oft_module \<Rightarrow> bool" where
  "valid self = (0 < num_blocks self
     \<and> num_blocks self * block_size self = out_dim self
     \<and> tensor3 (num_blocks self) (block_size self) (block_size self) (oft_blocks self))"

definition skew :: "nat \<Rightarrow> mat \<Rightarrow> bool" where
  "skew n Q = (mat n n Q \<and> (\<forall>i < n. \<forall>j < n. Q ! i ! j = - (Q ! j ! i)))"

definition group_norm :: sd_module where
  "group_norm = \<lparr> class_name = ''GroupNorm'', out_features = None, out_channels = None \<rparr>"

definition linear4 :: sd_module where
  "linear4 = \<lparr> class_name = ''Linear'', out_features = Some 4, out_channels = None \<rparr>"

definition example_blocks :: tensor3 where
  "example_blocks = [[[0, 1], [0, 0]], [[0, 1], [0, 0]]]"

definition example_weights :: "sd_module \<Rightarrow> network_weights" where
  "example_weights m = \<lparr> w_oft_blocks = Some example_blocks, w_alpha = Some 1, w_sd_module = m \<rparr>"

definition example_module :: "real \<Rightarrow> oft_module" where
  "example_module mult = \<lparr> oft_blocks = example_blocks, alpha = 1, dim = 2,
     num_blocks = 2, out_dim = 4, constraint = 4, block_size = 2, oft_multiplier = mult \<rparr>"

definition zero_mat :: "nat \<Rightarrow> mat" where
  "zero_mat b = replicate b (replicate b 0)"

definition oft_4x8 :: oft_module where
  "oft_4x8 = \<lparr> oft_blocks = replicate 4 (zero_mat 8), alpha = 1, dim = 4,
     num_blocks = 4, out_dim = 32, constraint = 32, block_size = 8, oft_multiplier = 1 \<rparr>"

definition weight_32x16 :: mat where
  "weight_32x16 = replicate 32 (replicate 16 0)"

definition example_rotation :: mat where
  "example_rotation = [[0, 1, 0, 0], [- 1, 0, 0, 0], [0, 0, 0, 1], [0, 0, - 1, 0]]"






section \<open>Auxiliary notions\<close>

text \<open>
  Notions used in the proofs only. A row of the elimination is well-formed when both
  halves have the length of the matrix; \<open>span\<close> is the set of rows reachable by the
  row operations; \<open>gj_inv\<close> is the invariant of the elimination loop; \<open>cayley\<close> and
  \<open>blend\<close> name the per-block results of lines 46 and 48; \<open>skew_blocks\<close> and
  \<open>rescale\<close> name the results of line 41 and the factor of line 44.
\<close>

definition wf_aug :: "nat \<Rightarrow> aug \<Rightarrow> bool" where
  "wf_aug n r = (length (fst r) = n \<and> length (snd r) = n)"

inductive_set span :: "aug set \<Rightarrow> aug set" for S :: "aug set" where
  span_base: "r \<in> S \<Longrightarrow> r \<in> span S"
| span_sub: "u \<in> span S \<Longrightarrow> v \<in> span S \<Longrightarrow> aug_sub u v \<in> span S"
| span_scale: "u \<in> span S \<Longrightarrow> aug_scale c u \<in> span S"

definition gj_inv :: "nat \<Rightarrow> mat \<Rightarrow> nat \<Rightarrow> aug list \<Rightarrow> aug list \<Rightarrow> bool" where
  "gj_inv n A k fin todo =
     (mat n n A \<and> length fin = k \<and> k + length todo = n
      \<and> (\<forall>r \<in> set fin \<union> set todo. wf_aug n r \<and> vecmat (snd r) A = fst r)
      \<and> (\<forall>i<n. (A ! i, eye n ! i) \<in> span (set fin \<union> set todo))
      \<and> (\<forall>i<k. \<forall>c<k. fst (fin ! i) ! c = (if i = c then 1 else 0))
      \<and> (\<forall>t \<in> set todo. \<forall>c<k. fst t ! c = 0))"

definition cayley :: "nat \<Rightarrow> mat \<Rightarrow> mat" where
  "cayley b Q =
     (case inverse_m (map2 (map2 (-)) (eye b) Q) of
        Inl e \<Rightarrow> []
      | Inr B \<Rightarrow> mat_mul (map2 (map2 (+)) (eye b) Q) B)"

definition blend :: "real \<Rightarrow> nat \<Rightarrow> mat \<Rightarrow> mat" where
  "blend m b R = map2 (map2 (+)) (scale_m m R) (scale_m (1 - m) (eye b))"

definition skew_blocks :: "tensor3 \<Rightarrow> tensor3" where
  "skew_blocks X = map (\<lambda>P. map2 (map2 (-)) P (transpose_m P)) X"

definition rescale :: "real \<Rightarrow> tensor3 \<Rightarrow> real" where
  "rescale c Q = (clamp_max (norm_t (flatten Q)) c + eps) / (norm_t (flatten Q) + eps)"

section \<open>Matrices\<close>

lemma mat_length: "mat r c A \<Longrightarrow> length A = r"
  by (simp add: mat_def)

lemma mat_row_length: "mat r c A \<Longrightarrow> i < r \<Longrightarrow> length (A ! i) = c"
  by (simp add: mat_def)

lemma mat_rows: "mat r c A \<Longrightarrow> rows A = r"
  by (simp add: mat_def rows_def)

lemma mat_cols: "mat r c A \<Longrightarrow> 0 < r \<Longrightarrow> cols A = c"
  by (cases A) (auto simp: mat_def cols_def)

lemma mat_cols_square: "mat n n A \<Longrightarrow> cols A = n"
  by (cases A) (auto simp: mat_def cols_def)

lemma mat_ext:
  assumes "mat r c A" "mat r c B" "\<And>i j. i < r \<Longrightarrow> j < c \<Longrightarrow> A ! i ! j = B ! i ! j"
  shows "A = B"
proof (rule nth_equalityI)
  show "length A = length B" using assms by (simp add: mat_def)
next
  fix i assume i: "i < length A"
  then have ir: "i < r" using assms(1) by (simp add: mat_def)
  show "A ! i = B ! i"
  proof (rule nth_equalityI)
    show "length (A ! i) = length (B ! i)"
      using ir assms(1,2) by (simp add: mat_row_length)
  next
    fix j assume "j < length (A ! i)"
    then have "j < c" using ir assms(1) by (simp add: mat_row_length)
    then show "A ! i ! j = B ! i ! j" using ir assms(3) by simp
  qed
qed

lemma expand_same: "length xs = n \<Longrightarrow> expand n xs = xs"
  by (simp add: expand_def)

lemma map_expand_same: "mat r c A \<Longrightarrow> map (expand c) A = A"
  by (simp add: mat_def expand_def map_idI)

lemma same_shape_cols: "mat r c A \<Longrightarrow> mat r c B \<Longrightarrow> cols A = cols B"
  by (cases A; cases B) (auto simp: mat_def cols_def)

lemma broadcast2_same:
  assumes "mat r c A" "mat r c B"
  shows "broadcast2 f A B = Inr (map2 (map2 f) A B)"
proof -
  have rw: "rows A = r" "rows B = r" using assms by (simp_all add: mat_rows)
  have cc: "cols A = cols B" using assms by (rule same_shape_cols)
  have e: "map (expand (cols B)) A = A" "map (expand (cols B)) B = B"
  proof -
    show "map (expand (cols B)) B = B"
      by (cases B) (use assms(2) in \<open>auto simp: mat_def cols_def expand_def map_idI\<close>)
    show "map (expand (cols B)) A = A"
      unfolding cc [symmetric]
      by (cases A) (use assms(1) in \<open>auto simp: mat_def cols_def expand_def map_idI\<close>)
  qed
  show ?thesis
    using assms by (simp add: broadcast2_def bdim_def rw cc e expand_def mat_def)
qed

lemma ew_mat: "mat r c A \<Longrightarrow> mat r c B \<Longrightarrow> mat r c (map2 (map2 f) A B)"
  by (auto simp: mat_def set_zip)

lemma ew_nth:
  "mat r c A \<Longrightarrow> mat r c B \<Longrightarrow> i < r \<Longrightarrow> j < c \<Longrightarrow> map2 (map2 f) A B ! i ! j = f (A ! i ! j) (B ! i ! j)"
  by (simp add: mat_def)

lemma eye_mat: "mat n n (eye n)"
  by (auto simp: mat_def eye_def)

lemma eye_nth: "i < n \<Longrightarrow> j < n \<Longrightarrow> eye n ! i ! j = (if i = j then 1 else 0)"
  by (simp add: eye_def)

lemma col_nth: "mat r c A \<Longrightarrow> i < r \<Longrightarrow> col A j ! i = A ! i ! j"
  by (simp add: col_def mat_def)

lemma col_length: "mat r c A \<Longrightarrow> length (col A j) = r"
  by (simp add: col_def mat_def)

lemma transpose_mat: "mat n n A \<Longrightarrow> mat n n (transpose_m A)"
  by (auto simp: transpose_m_def mat_cols_square) (auto simp: mat_def col_def)

lemma transpose_nth: "mat n n A \<Longrightarrow> i < n \<Longrightarrow> j < n \<Longrightarrow> transpose_m A ! i ! j = A ! j ! i"
  by (simp add: transpose_m_def mat_cols_square col_nth)

lemma dot_sum: "length u = n \<Longrightarrow> length v = n \<Longrightarrow> dot u v = (\<Sum>k<n. u ! k * v ! k)"
proof -
  assume a: "length u = n" "length v = n"
  have "dot u v = (\<Sum>k = 0..<length (map2 (*) u v). map2 (*) u v ! k)"
    unfolding dot_def by (rule sum_list_sum_nth)
  also have "\<dots> = (\<Sum>k = 0..<n. u ! k * v ! k)"
    using a by (intro sum.cong) auto
  finally show ?thesis by (simp add: atLeast0LessThan)
qed

lemma vecmat_length: "mat n n A \<Longrightarrow> length (vecmat v A) = n"
  by (simp add: vecmat_def mat_cols_square)

lemma vecmat_nth:
  "mat n n A \<Longrightarrow> length v = n \<Longrightarrow> j < n \<Longrightarrow> vecmat v A ! j = (\<Sum>k<n. v ! k * A ! k ! j)"
  by (simp add: vecmat_def mat_cols_square dot_sum [of _ n] col_length col_nth)

lemma mat_mul_mat: "mat n n A \<Longrightarrow> mat n n B \<Longrightarrow> mat n n (mat_mul A B)"
  by (auto simp: mat_def mat_mul_def intro!: vecmat_length [unfolded mat_def])

lemma mat_mul_nth:
  "mat n n A \<Longrightarrow> mat n n B \<Longrightarrow> i < n \<Longrightarrow> j < n \<Longrightarrow>
   mat_mul A B ! i ! j = (\<Sum>k<n. A ! i ! k * B ! k ! j)"
  by (simp add: mat_mul_def mat_length vecmat_nth mat_row_length)

lemma mat_mul_assoc:
  assumes "mat n n A" "mat n n B" "mat n n C"
  shows "mat_mul (mat_mul A B) C = mat_mul A (mat_mul B C)"
proof (rule mat_ext [of n n])
  note shp = mat_mul_mat [of n]
  note nth = mat_mul_nth [of n]
  show "mat n n (mat_mul (mat_mul A B) C)" using assms by (simp add: shp)
  show "mat n n (mat_mul A (mat_mul B C))" using assms by (simp add: shp)
  fix i j assume ij: "i < n" "j < n"
  have "mat_mul (mat_mul A B) C ! i ! j = (\<Sum>k<n. mat_mul A B ! i ! k * C ! k ! j)"
    using assms ij by (simp add: nth shp)
  also have "\<dots> = (\<Sum>k<n. (\<Sum>l<n. A ! i ! l * B ! l ! k) * C ! k ! j)"
    using assms ij by (intro sum.cong) (simp_all add: nth)
  also have "\<dots> = (\<Sum>k<n. \<Sum>l<n. A ! i ! l * (B ! l ! k * C ! k ! j))"
    by (simp add: sum_distrib_right mult.assoc)
  also have "\<dots> = (\<Sum>l<n. \<Sum>k<n. A ! i ! l * (B ! l ! k * C ! k ! j))"
    by (rule sum.swap)
  also have "\<dots> = (\<Sum>l<n. A ! i ! l * (\<Sum>k<n. B ! l ! k * C ! k ! j))"
    by (simp add: sum_distrib_left)
  also have "\<dots> = (\<Sum>l<n. A ! i ! l * mat_mul B C ! l ! j)"
    using assms ij by (intro sum.cong) (simp_all add: nth)
  also have "\<dots> = mat_mul A (mat_mul B C) ! i ! j"
    using assms ij by (simp add: nth shp)
  finally show "mat_mul (mat_mul A B) C ! i ! j = mat_mul A (mat_mul B C) ! i ! j" .
qed

lemma sum_delta_left: "j < n \<Longrightarrow> (\<Sum>k<n. (if j = k then 1 else 0) * f k) = (f j :: real)" for j n :: nat
proof -
  assume j: "j < n"
  have "(\<Sum>k<n. (if j = k then 1 else 0) * f k) = (\<Sum>k\<in>{..<n}. if k = j then f k else 0)"
    by (intro sum.cong) auto
  also have "\<dots> = f j" using j by simp
  finally show ?thesis .
qed

lemma sum_delta_right: "j < n \<Longrightarrow> (\<Sum>k<n. f k * (if k = j then 1 else 0)) = (f j :: real)" for j n :: nat
proof -
  assume j: "j < n"
  have "(\<Sum>k<n. f k * (if k = j then 1 else 0)) = (\<Sum>k\<in>{..<n}. if k = j then f k else 0)"
    by (intro sum.cong) auto
  also have "\<dots> = f j" using j by simp
  finally show ?thesis .
qed

lemma mat_mul_eye_left:
  assumes "mat n n A"
  shows "mat_mul (eye n) A = A"
proof (rule mat_ext [of n n])
  show "mat n n (mat_mul (eye n) A)" using assms by (simp add: mat_mul_mat [of n] eye_mat)
  show "mat n n A" by (rule assms)
  fix i j assume ij: "i < n" "j < n"
  have "mat_mul (eye n) A ! i ! j = (\<Sum>k<n. eye n ! i ! k * A ! k ! j)"
    using assms ij by (simp add: mat_mul_nth [of n] eye_mat)
  also have "\<dots> = (\<Sum>k<n. (if i = k then 1 else 0) * A ! k ! j)"
    using ij by (intro sum.cong) (simp_all add: eye_nth)
  also have "\<dots> = A ! i ! j" using ij by (simp only: sum_delta_left)
  finally show "mat_mul (eye n) A ! i ! j = A ! i ! j" .
qed

lemma mat_mul_eye_right:
  assumes "mat n n A"
  shows "mat_mul A (eye n) = A"
proof (rule mat_ext [of n n])
  show "mat n n (mat_mul A (eye n))" using assms by (simp add: mat_mul_mat [of n] eye_mat)
  show "mat n n A" by (rule assms)
  fix i j assume ij: "i < n" "j < n"
  have "mat_mul A (eye n) ! i ! j = (\<Sum>k<n. A ! i ! k * eye n ! k ! j)"
    using assms ij by (simp add: mat_mul_nth [of n] eye_mat)
  also have "\<dots> = (\<Sum>k<n. A ! i ! k * (if k = j then 1 else 0))"
    using ij by (intro sum.cong) (simp_all add: eye_nth)
  also have "\<dots> = A ! i ! j" using ij by (simp only: sum_delta_right)
  finally show "mat_mul A (eye n) ! i ! j = A ! i ! j" .
qed

lemma transpose_mat_mul:
  assumes "mat n n A" "mat n n B"
  shows "transpose_m (mat_mul A B) = mat_mul (transpose_m B) (transpose_m A)"
proof (rule mat_ext [of n n])
  note shp = mat_mul_mat [of n] transpose_mat [of n]
  show "mat n n (transpose_m (mat_mul A B))" using assms by (simp add: shp)
  show "mat n n (mat_mul (transpose_m B) (transpose_m A))" using assms by (simp add: shp)
  fix i j assume ij: "i < n" "j < n"
  have "transpose_m (mat_mul A B) ! i ! j = (\<Sum>k<n. A ! j ! k * B ! k ! i)"
    using assms ij by (simp add: transpose_nth [of n] mat_mul_nth [of n] shp)
  also have "\<dots> = (\<Sum>k<n. transpose_m B ! i ! k * transpose_m A ! k ! j)"
    using assms ij by (intro sum.cong) (simp_all add: transpose_nth [of n])
  also have "\<dots> = mat_mul (transpose_m B) (transpose_m A) ! i ! j"
    using assms ij by (simp add: mat_mul_nth [of n] shp)
  finally show "transpose_m (mat_mul A B) ! i ! j = mat_mul (transpose_m B) (transpose_m A) ! i ! j" .
qed

lemma transpose_eye: "transpose_m (eye n) = eye n"
proof (rule mat_ext [of n n])
  show "mat n n (transpose_m (eye n))" by (simp add: transpose_mat [of n] eye_mat)
  show "mat n n (eye n)" by (rule eye_mat)
  fix i j assume "i < n" "j < n"
  then show "transpose_m (eye n) ! i ! j = eye n ! i ! j"
    by (auto simp: transpose_nth [of n] eye_mat eye_nth)
qed

text \<open>Cayley transform of a skew-symmetric matrix.\<close>

lemma skew_mat: "skew n Q \<Longrightarrow> mat n n Q"
  by (simp add: skew_def)

lemma skew_nth: "skew n Q \<Longrightarrow> i < n \<Longrightarrow> j < n \<Longrightarrow> Q ! i ! j = - (Q ! j ! i)"
  unfolding skew_def by blast

lemma plus_eye_nth:
  "mat n n Q \<Longrightarrow> i < n \<Longrightarrow> j < n \<Longrightarrow>
   map2 (map2 (+)) (eye n) Q ! i ! j = (if i = j then 1 else 0) + Q ! i ! j"
  using ew_nth [of n n "eye n" Q i j "(+)"] by (simp only: eye_mat eye_nth)

lemma minus_eye_nth:
  "mat n n Q \<Longrightarrow> i < n \<Longrightarrow> j < n \<Longrightarrow>
   map2 (map2 (-)) (eye n) Q ! i ! j = (if i = j then 1 else 0) - Q ! i ! j"
  using ew_nth [of n n "eye n" Q i j "(-)"] by (simp only: eye_mat eye_nth)

lemma plus_eye_mat: "mat n n Q \<Longrightarrow> mat n n (map2 (map2 (+)) (eye n) Q)"
  by (simp add: ew_mat eye_mat)

lemma minus_eye_mat: "mat n n Q \<Longrightarrow> mat n n (map2 (map2 (-)) (eye n) Q)"
  by (simp add: ew_mat eye_mat)

lemma skew_diag: "skew n Q \<Longrightarrow> i < n \<Longrightarrow> Q ! i ! i = 0"
proof -
  assume "skew n Q" "i < n"
  then have "Q ! i ! i = - (Q ! i ! i)" using skew_nth [of n Q i i] by blast
  then show ?thesis by linarith
qed

lemma skew_transpose_minus:
  assumes "skew n Q"
  shows "transpose_m (map2 (map2 (-)) (eye n) Q) = map2 (map2 (+)) (eye n) Q"
proof (rule mat_ext [of n n])
  have mQ: "mat n n Q" using assms by (rule skew_mat)
  show "mat n n (transpose_m (map2 (map2 (-)) (eye n) Q))"
    using mQ by (simp add: transpose_mat [of n] minus_eye_mat)
  show "mat n n (map2 (map2 (+)) (eye n) Q)"
    using mQ by (simp add: plus_eye_mat)
  fix i j assume ij: "i < n" "j < n"
  have l: "transpose_m (map2 (map2 (-)) (eye n) Q) ! i ! j = (if j = i then 1 else 0) - Q ! j ! i"
    using mQ ij by (simp only: transpose_nth [of n] minus_eye_mat minus_eye_nth)
  have r: "map2 (map2 (+)) (eye n) Q ! i ! j = (if i = j then 1 else 0) + Q ! i ! j"
    using mQ ij by (simp only: plus_eye_nth)
  have q: "Q ! j ! i = - (Q ! i ! j)" using assms ij(2) ij(1) by (rule skew_nth)
  show "transpose_m (map2 (map2 (-)) (eye n) Q) ! i ! j = map2 (map2 (+)) (eye n) Q ! i ! j"
    unfolding l r q by (cases "i = j") simp_all
qed

lemma skew_transpose_plus:
  assumes "skew n Q"
  shows "transpose_m (map2 (map2 (+)) (eye n) Q) = map2 (map2 (-)) (eye n) Q"
proof (rule mat_ext [of n n])
  have mQ: "mat n n Q" using assms by (rule skew_mat)
  show "mat n n (transpose_m (map2 (map2 (+)) (eye n) Q))"
    using mQ by (simp add: transpose_mat [of n] plus_eye_mat)
  show "mat n n (map2 (map2 (-)) (eye n) Q)"
    using mQ by (simp add: minus_eye_mat)
  fix i j assume ij: "i < n" "j < n"
  have l: "transpose_m (map2 (map2 (+)) (eye n) Q) ! i ! j = (if j = i then 1 else 0) + Q ! j ! i"
    using mQ ij by (simp only: transpose_nth [of n] plus_eye_mat plus_eye_nth)
  have r: "map2 (map2 (-)) (eye n) Q ! i ! j = (if i = j then 1 else 0) - Q ! i ! j"
    using mQ ij by (simp only: minus_eye_nth)
  have q: "Q ! j ! i = - (Q ! i ! j)" using assms ij(2) ij(1) by (rule skew_nth)
  show "transpose_m (map2 (map2 (+)) (eye n) Q) ! i ! j = map2 (map2 (-)) (eye n) Q ! i ! j"
    unfolding l r q by (cases "i = j") simp_all
qed

lemma cayley_sum:
  fixes s :: real and n i j :: nat
  assumes ij: "i < n" "j < n" and s: "s * s = 1"
  shows "(\<Sum>k<n. ((if i = k then 1 else 0) + s * q i k) * ((if k = j then 1 else 0) - s * q k j))
       = (if i = j then 1 else 0) - (\<Sum>k<n. q i k * q k j)"
proof -
  have "(\<Sum>k<n. ((if i = k then 1 else 0) + s * q i k) * ((if k = j then 1 else 0) - s * q k j))
      = (\<Sum>k<n. (if i = k then 1 else 0) * (if k = j then 1 else 0)
           - s * ((if i = k then 1 else 0) * q k j)
           + s * (q i k * (if k = j then 1 else 0))
           - (s * s) * (q i k * q k j))"
    by (intro sum.cong refl) (simp add: algebra_simps)
  also have "\<dots> = (\<Sum>k<n. (if i = k then 1 else 0) * (if k = j then 1 else 0))
        - s * (\<Sum>k<n. (if i = k then 1 else 0) * q k j)
        + s * (\<Sum>k<n. q i k * (if k = j then 1 else 0))
        - (s * s) * (\<Sum>k<n. q i k * q k j)"
    by (simp only: sum.distrib sum_subtractf sum_distrib_left)
  also have "\<dots> = (if i = j then 1 else 0) - s * q i j + s * q i j - (s * s) * (\<Sum>k<n. q i k * q k j)"
    using ij by (simp only: sum_delta_left sum_delta_right)
  finally show ?thesis using s by simp
qed

lemma cayley_commute:
  assumes mQ: "mat n n Q"
  shows "mat_mul (map2 (map2 (+)) (eye n) Q) (map2 (map2 (-)) (eye n) Q)
       = mat_mul (map2 (map2 (-)) (eye n) Q) (map2 (map2 (+)) (eye n) Q)"
proof (rule mat_ext [of n n])
  let ?P = "map2 (map2 (+)) (eye n) Q" and ?M = "map2 (map2 (-)) (eye n) Q"
  have P: "mat n n ?P" and M: "mat n n ?M" using mQ by (simp_all add: plus_eye_mat minus_eye_mat)
  show "mat n n (mat_mul ?P ?M)" "mat n n (mat_mul ?M ?P)" using P M by (simp_all add: mat_mul_mat [of n])
  fix i j assume ij: "i < n" "j < n"
  have "mat_mul ?P ?M ! i ! j = (\<Sum>k<n. ?P ! i ! k * ?M ! k ! j)"
    using ij P M by (simp add: mat_mul_nth [of n])
  also have "\<dots> = (\<Sum>k<n. ((if i = k then 1 else 0) + 1 * Q ! i ! k) * ((if k = j then 1 else 0) - 1 * Q ! k ! j))"
    using ij mQ by (intro sum.cong) (simp_all add: plus_eye_nth minus_eye_nth)
  also have "\<dots> = (if i = j then 1 else 0) - (\<Sum>k<n. Q ! i ! k * Q ! k ! j)"
    using ij by (intro cayley_sum) simp_all
  finally have one: "mat_mul ?P ?M ! i ! j = (if i = j then 1 else 0) - (\<Sum>k<n. Q ! i ! k * Q ! k ! j)" .
  have "mat_mul ?M ?P ! i ! j = (\<Sum>k<n. ?M ! i ! k * ?P ! k ! j)"
    using ij P M by (simp add: mat_mul_nth [of n])
  also have "\<dots> = (\<Sum>k<n. ((if i = k then 1 else 0) + (- 1) * Q ! i ! k) * ((if k = j then 1 else 0) - (- 1) * Q ! k ! j))"
    using ij mQ by (intro sum.cong) (simp_all add: plus_eye_nth minus_eye_nth)
  also have "\<dots> = (if i = j then 1 else 0) - (\<Sum>k<n. Q ! i ! k * Q ! k ! j)"
    using ij by (intro cayley_sum) simp_all
  finally show "mat_mul ?P ?M ! i ! j = mat_mul ?M ?P ! i ! j" using one by simp
qed

lemma cayley_orthogonal:
  assumes Q: "skew n Q"
    and BA: "mat_mul B (map2 (map2 (-)) (eye n) Q) = eye n"
    and AB: "mat_mul (map2 (map2 (-)) (eye n) Q) B = eye n"
    and B: "mat n n B"
  shows "mat_mul (mat_mul (map2 (map2 (+)) (eye n) Q) B)
                 (transpose_m (mat_mul (map2 (map2 (+)) (eye n) Q) B)) = eye n"
proof -
  let ?P = "map2 (map2 (+)) (eye n) Q" and ?A = "map2 (map2 (-)) (eye n) Q"
  let ?Bt = "transpose_m B"
  note shp = mat_mul_mat [of n]
  note assoc = mat_mul_assoc [of n]
  have mQ: "mat n n Q" using Q by (rule skew_mat)
  have P: "mat n n ?P" and A: "mat n n ?A" using mQ by (simp_all add: plus_eye_mat minus_eye_mat)
  have Bt: "mat n n ?Bt" using B by (rule transpose_mat)
  have At: "transpose_m ?A = ?P" using Q by (rule skew_transpose_minus)
  have Pt: "transpose_m ?P = ?A" using Q by (rule skew_transpose_plus)
  have PA: "mat_mul ?P ?A = mat_mul ?A ?P" using mQ by (rule cayley_commute)
  have PBt: "mat_mul ?P ?Bt = eye n"
  proof -
    have "transpose_m (mat_mul B ?A) = mat_mul (transpose_m ?A) ?Bt"
      using B A by (rule transpose_mat_mul)
    then show ?thesis by (simp add: BA At transpose_eye)
  qed
  have BP: "mat_mul B ?P = mat_mul ?P B"
  proof -
    have "mat_mul B ?P = mat_mul (mat_mul B ?P) (mat_mul ?A B)"
      using B P by (simp add: AB mat_mul_eye_right [of n] shp)
    also have "\<dots> = mat_mul B (mat_mul (mat_mul ?P ?A) B)"
      using B P A by (simp add: assoc shp)
    also have "\<dots> = mat_mul B (mat_mul (mat_mul ?A ?P) B)"
      by (simp only: PA)
    also have "\<dots> = mat_mul (mat_mul B ?A) (mat_mul ?P B)"
      using B P A by (simp add: assoc shp)
    also have "\<dots> = mat_mul ?P B"
      using B P by (simp only: BA mat_mul_eye_left [of n] shp)
    finally show ?thesis .
  qed
  have "transpose_m (mat_mul ?P B) = mat_mul ?Bt ?A"
    using transpose_mat_mul [OF P B] by (simp only: Pt)
  then have "mat_mul (mat_mul ?P B) (transpose_m (mat_mul ?P B)) = mat_mul (mat_mul B ?P) (mat_mul ?Bt ?A)"
    by (simp only: BP)
  also have "\<dots> = mat_mul B (mat_mul (mat_mul ?P ?Bt) ?A)"
    using B P A Bt by (simp add: assoc shp)
  also have "\<dots> = eye n"
    using A by (simp only: PBt mat_mul_eye_left [of n] BA)
  finally show ?thesis .
qed

subsection \<open>Vectors\<close>

lemma vecmat_sub:
  assumes "mat n n A" "length u = n" "length v = n"
  shows "vecmat (map2 (-) u v) A = map2 (-) (vecmat u A) (vecmat v A)"
proof (rule nth_equalityI)
  show "length (vecmat (map2 (-) u v) A) = length (map2 (-) (vecmat u A) (vecmat v A))"
    using assms by (simp add: vecmat_length [of n])
next
  fix j assume "j < length (vecmat (map2 (-) u v) A)"
  then have j: "j < n" using assms by (simp add: vecmat_length [of n])
  have "vecmat (map2 (-) u v) A ! j = (\<Sum>k<n. map2 (-) u v ! k * A ! k ! j)"
    using assms j by (simp add: vecmat_nth [of n])
  also have "\<dots> = (\<Sum>k<n. u ! k * A ! k ! j - v ! k * A ! k ! j)"
    using assms by (intro sum.cong) (simp_all add: left_diff_distrib)
  also have "\<dots> = vecmat u A ! j - vecmat v A ! j"
    using assms j by (simp add: vecmat_nth [of n] sum_subtractf)
  also have "\<dots> = map2 (-) (vecmat u A) (vecmat v A) ! j"
    using assms j by (simp add: vecmat_length [of n])
  finally show "vecmat (map2 (-) u v) A ! j = map2 (-) (vecmat u A) (vecmat v A) ! j" .
qed

lemma vecmat_scale:
  assumes "mat n n A" "length u = n"
  shows "vecmat (map (\<lambda>x. c * x) u) A = map (\<lambda>x. c * x) (vecmat u A)"
proof (rule nth_equalityI)
  show "length (vecmat (map (\<lambda>x. c * x) u) A) = length (map (\<lambda>x. c * x) (vecmat u A))"
    using assms by (simp add: vecmat_length [of n])
next
  fix j assume "j < length (vecmat (map (\<lambda>x. c * x) u) A)"
  then have j: "j < n" using assms by (simp add: vecmat_length [of n])
  have "vecmat (map (\<lambda>x. c * x) u) A ! j = (\<Sum>k<n. map (\<lambda>x. c * x) u ! k * A ! k ! j)"
    using assms j by (simp add: vecmat_nth [of n])
  also have "\<dots> = (\<Sum>k<n. c * (u ! k * A ! k ! j))"
    using assms by (intro sum.cong) (simp_all add: mult.assoc)
  also have "\<dots> = c * vecmat u A ! j"
    using assms j by (simp add: vecmat_nth [of n] sum_distrib_left)
  also have "\<dots> = map (\<lambda>x. c * x) (vecmat u A) ! j"
    using assms j by (simp add: vecmat_length [of n])
  finally show "vecmat (map (\<lambda>x. c * x) u) A ! j = map (\<lambda>x. c * x) (vecmat u A) ! j" .
qed

lemma vecmat_unit:
  assumes "mat n n A" "i < n"
  shows "vecmat (eye n ! i) A = A ! i"
proof (rule nth_equalityI)
  show "length (vecmat (eye n ! i) A) = length (A ! i)"
    using assms by (simp add: vecmat_length [of n] mat_row_length [of n n])
next
  fix j assume "j < length (vecmat (eye n ! i) A)"
  then have j: "j < n" using assms by (simp add: vecmat_length [of n])
  have len: "length (eye n ! i) = n" using assms(2) eye_mat [of n] by (simp add: mat_row_length [of n n])
  have "vecmat (eye n ! i) A ! j = (\<Sum>k<n. eye n ! i ! k * A ! k ! j)"
    using assms j len by (simp add: vecmat_nth [of n])
  also have "\<dots> = (\<Sum>k<n. (if i = k then 1 else 0) * A ! k ! j)"
    using assms by (intro sum.cong) (simp_all add: eye_nth)
  also have "\<dots> = A ! i ! j" using assms(2) by (simp only: sum_delta_left)
  finally show "vecmat (eye n ! i) A ! j = A ! i ! j" .
qed

lemma dot_sub:
  assumes "length u = n" "length v = n" "length x = n"
  shows "dot (map2 (-) u v) x = dot u x - dot v x"
proof -
  have "dot (map2 (-) u v) x = (\<Sum>k<n. map2 (-) u v ! k * x ! k)"
    using assms by (simp add: dot_sum [of _ n])
  also have "\<dots> = (\<Sum>k<n. u ! k * x ! k - v ! k * x ! k)"
    using assms by (intro sum.cong) (simp_all add: left_diff_distrib)
  also have "\<dots> = dot u x - dot v x"
    using assms by (simp add: dot_sum [of _ n] sum_subtractf)
  finally show ?thesis .
qed

lemma dot_scale:
  assumes "length u = n" "length x = n"
  shows "dot (map (\<lambda>y. c * y) u) x = c * dot u x"
proof -
  have "dot (map (\<lambda>y. c * y) u) x = (\<Sum>k<n. map (\<lambda>y. c * y) u ! k * x ! k)"
    using assms by (simp add: dot_sum [of _ n])
  also have "\<dots> = (\<Sum>k<n. c * (u ! k * x ! k))"
    using assms by (intro sum.cong) (simp_all add: mult.assoc)
  also have "\<dots> = c * dot u x"
    using assms by (simp add: dot_sum [of _ n] sum_distrib_left)
  finally show ?thesis .
qed

subsection \<open>Row operations\<close>

lemma wf_aug_scale: "wf_aug n r \<Longrightarrow> wf_aug n (aug_scale c r)"
  by (simp add: wf_aug_def aug_scale_def)

lemma wf_aug_sub: "wf_aug n r \<Longrightarrow> wf_aug n p \<Longrightarrow> wf_aug n (aug_sub r p)"
  by (simp add: wf_aug_def aug_sub_def)

lemma wf_eliminate: "wf_aug n r \<Longrightarrow> wf_aug n p \<Longrightarrow> wf_aug n (eliminate k p r)"
  by (simp add: eliminate_def wf_aug_sub wf_aug_scale)

lemma fst_aug_scale_nth: "wf_aug n r \<Longrightarrow> c < n \<Longrightarrow> fst (aug_scale s r) ! c = s * fst r ! c"
  by (simp add: wf_aug_def aug_scale_def)

lemma fst_eliminate_nth:
  "wf_aug n r \<Longrightarrow> wf_aug n p \<Longrightarrow> c < n \<Longrightarrow>
   fst (eliminate k p r) ! c = fst r ! c - fst r ! k * fst p ! c"
  by (simp add: wf_aug_def eliminate_def aug_sub_def aug_scale_def)

lemma scale_scale_list: "a \<noteq> 0 \<Longrightarrow> map (\<lambda>x. a * x) (map (\<lambda>x. (1 / a) * x) l) = (l :: real list)"
  by (induction l) simp_all

lemma aug_scale_inverse: "a \<noteq> 0 \<Longrightarrow> aug_scale a (aug_scale (1 / a) p) = p"
  by (simp add: aug_scale_def o_def)

lemma sub_sub_list:
  "length u = length v \<Longrightarrow>
   map2 (-) (map2 (-) u (map (\<lambda>x. c * x) v)) (map (\<lambda>x. (- c) * x) v) = (u :: real list)"
  by (induction u v rule: list_induct2) simp_all

lemma eliminate_undo:
  assumes "wf_aug n r" "wf_aug n p"
  shows "aug_sub (eliminate k p r) (aug_scale (- (fst r ! k)) p) = r"
proof -
  have l: "length (fst r) = length (fst p)" "length (snd r) = length (snd p)"
    using assms by (simp_all add: wf_aug_def)
  have "aug_sub (eliminate k p r) (aug_scale (- (fst r ! k)) p)
      = (map2 (-) (map2 (-) (fst r) (map (\<lambda>x. fst r ! k * x) (fst p))) (map (\<lambda>x. (- (fst r ! k)) * x) (fst p)),
         map2 (-) (map2 (-) (snd r) (map (\<lambda>x. fst r ! k * x) (snd p))) (map (\<lambda>x. (- (fst r ! k)) * x) (snd p)))"
    by (simp only: eliminate_def aug_sub_def aug_scale_def fst_conv snd_conv)
  also have "\<dots> = (fst r, snd r)"
    by (simp only: sub_sub_list [OF l(1)] sub_sub_list [OF l(2)])
  finally show ?thesis by simp
qed

lemma graph_scale:
  assumes "mat n n A" "wf_aug n r" "vecmat (snd r) A = fst r"
  shows "vecmat (snd (aug_scale c r)) A = fst (aug_scale c r)"
  using assms by (simp add: aug_scale_def wf_aug_def vecmat_scale [of n])

lemma graph_sub:
  assumes "mat n n A" "wf_aug n r" "vecmat (snd r) A = fst r" "wf_aug n p" "vecmat (snd p) A = fst p"
  shows "vecmat (snd (aug_sub r p)) A = fst (aug_sub r p)"
  using assms by (simp add: aug_sub_def wf_aug_def vecmat_sub [of n])

lemma graph_eliminate:
  assumes "mat n n A" "wf_aug n r" "vecmat (snd r) A = fst r" "wf_aug n p" "vecmat (snd p) A = fst p"
  shows "vecmat (snd (eliminate k p r)) A = fst (eliminate k p r)"
  unfolding eliminate_def
  using assms by (intro graph_sub [of n] graph_scale [of n] wf_aug_scale) simp_all

subsection \<open>Span\<close>

lemma span_subset: "r \<in> span S \<Longrightarrow> S \<subseteq> span T \<Longrightarrow> r \<in> span T"
  by (induction rule: span.induct) (auto intro: span.intros)

lemma span_wf: "r \<in> span S \<Longrightarrow> \<forall>r\<in>S. wf_aug n r \<Longrightarrow> wf_aug n r"
  by (induction rule: span.induct) (auto intro: wf_aug_sub wf_aug_scale)

subsection \<open>Pivot search\<close>

lemma find_pivot_Some:
  "find_pivot k rs = Some (p, rest) \<Longrightarrow>
   fst p ! k \<noteq> 0 \<and> set rs = insert p (set rest) \<and> Suc (length rest) = length rs"
  by (induction rs arbitrary: p rest) (auto split: if_splits option.splits)

lemma find_pivot_None: "find_pivot k rs = None \<Longrightarrow> \<forall>r\<in>set rs. fst r ! k = 0"
  by (induction rs) (auto split: if_splits option.splits)

subsection \<open>One elimination step keeps the invariant\<close>

lemma gj_step:
  assumes inv: "gj_inv n A k fin todo" and piv: "find_pivot k todo = Some (p, rest)"
  shows "gj_inv n A (Suc k)
           (map (eliminate k (aug_scale (1 / (fst p ! k)) p)) fin @ [aug_scale (1 / (fst p ! k)) p])
           (map (eliminate k (aug_scale (1 / (fst p ! k)) p)) rest)"
proof -
  define p' where "p' = aug_scale (1 / (fst p ! k)) p"
  let ?e = "eliminate k p'"
  from inv have A: "mat n n A" and lf: "length fin = k" and ln: "k + length todo = n"
    and rowsI: "\<And>r. r \<in> set fin \<union> set todo \<Longrightarrow> wf_aug n r \<and> vecmat (snd r) A = fst r"
    and spanI: "\<And>i. i < n \<Longrightarrow> (A ! i, eye n ! i) \<in> span (set fin \<union> set todo)"
    and unitI: "\<And>i c. i < k \<Longrightarrow> c < k \<Longrightarrow> fst (fin ! i) ! c = (if i = c then 1 else 0)"
    and zeroI: "\<And>t c. t \<in> set todo \<Longrightarrow> c < k \<Longrightarrow> fst t ! c = 0"
    unfolding gj_inv_def by blast+
  from find_pivot_Some [OF piv] have pk: "fst p ! k \<noteq> 0"
    and st: "set todo = insert p (set rest)" and lr: "Suc (length rest) = length todo"
    by blast+
  have kn: "k < n" using ln lr by linarith
  have p_todo: "p \<in> set todo" using st by blast
  have rest_todo: "set rest \<subseteq> set todo" using st by blast
  have wp: "wf_aug n p" and gp: "vecmat (snd p) A = fst p" using rowsI [of p] p_todo by simp_all
  have wp': "wf_aug n p'" unfolding p'_def using wp by (rule wf_aug_scale)
  have gp': "vecmat (snd p') A = fst p'" unfolding p'_def using A wp gp by (rule graph_scale)
  have p'_low: "fst p' ! c = 0" if "c < k" for c
  proof -
    have "c < n" using that kn by simp
    then have "fst p' ! c = (1 / (fst p ! k)) * fst p ! c"
      unfolding p'_def using wp by (simp add: fst_aug_scale_nth [of n])
    then show ?thesis using zeroI [OF p_todo that] by simp
  qed
  have p'_k: "fst p' ! k = 1"
  proof -
    have "fst p' ! k = (1 / (fst p ! k)) * fst p ! k"
      unfolding p'_def using wp kn by (simp add: fst_aug_scale_nth [of n])
    then show ?thesis using pk by simp
  qed
  have e_nth: "fst (?e r) ! c = fst r ! c - fst r ! k * fst p' ! c" if "wf_aug n r" "c < n" for r c
    using that wp' by (simp add: fst_eliminate_nth [of n])
  have e_low: "fst (?e r) ! c = fst r ! c" if "wf_aug n r" "c < k" for r c
  proof -
    have "c < n" using that kn by simp
    then show ?thesis using e_nth [OF that(1)] p'_low [OF that(2)] by simp
  qed
  have e_k: "fst (?e r) ! k = 0" if "wf_aug n r" for r
    using e_nth [OF that kn] p'_k by simp
  have w_old: "wf_aug n r" if "r \<in> set fin \<union> set rest" for r
    using that rowsI [of r] rest_todo by blast
  have g_old: "vecmat (snd r) A = fst r" if "r \<in> set fin \<union> set rest" for r
    using that rowsI [of r] rest_todo by blast
  have new_set: "set (map ?e fin @ [p']) \<union> set (map ?e rest) = ?e ` (set fin \<union> set rest) \<union> {p'}"
    by auto
  have c4: "wf_aug n r \<and> vecmat (snd r) A = fst r"
    if "r \<in> set (map ?e fin @ [p']) \<union> set (map ?e rest)" for r
  proof -
    from that new_set consider "r = p'" | q where "q \<in> set fin \<union> set rest" "r = ?e q" by blast
    then show ?thesis
    proof cases
      case 1 then show ?thesis using wp' gp' by simp
    next
      case 2
      have wq: "wf_aug n q" and gq: "vecmat (snd q) A = fst q"
        using w_old [OF 2(1)] g_old [OF 2(1)] by simp_all
      show ?thesis
        unfolding 2(2) using wf_eliminate [OF wq wp'] graph_eliminate [OF A wq gq wp' gp']
        by simp
    qed
  qed
  have old_in_new: "set fin \<union> set todo \<subseteq> span (set (map ?e fin @ [p']) \<union> set (map ?e rest))"
    (is "_ \<subseteq> span ?N")
  proof
    fix r assume r: "r \<in> set fin \<union> set todo"
    have p'N: "p' \<in> span ?N" by (rule span_base) simp
    show "r \<in> span ?N"
    proof (cases "r = p")
      case True
      have pback: "aug_scale (fst p ! k) p' = p" unfolding p'_def using pk by (rule aug_scale_inverse)
      have "aug_scale (fst p ! k) p' \<in> span ?N" using p'N by (rule span_scale)
      then show ?thesis unfolding pback True .
    next
      case False
      then have rr: "r \<in> set fin \<union> set rest" using r st by blast
      then have "?e r \<in> ?N" by auto
      then have "?e r \<in> span ?N" by (rule span_base)
      moreover have "aug_scale (- (fst r ! k)) p' \<in> span ?N" using p'N by (rule span_scale)
      ultimately have "aug_sub (?e r) (aug_scale (- (fst r ! k)) p') \<in> span ?N" by (rule span_sub)
      then show ?thesis using eliminate_undo [OF w_old [OF rr] wp', of k] by simp
    qed
  qed
  have c5: "(A ! i, eye n ! i) \<in> span (set (map ?e fin @ [p']) \<union> set (map ?e rest))" if "i < n" for i
    using spanI [OF that] old_in_new by (rule span_subset)
  have c6: "fst ((map ?e fin @ [p']) ! i) ! c = (if i = c then 1 else 0)" if "i < Suc k" "c < Suc k" for i c
  proof (cases "i < k")
    case True
    then have fi: "fin ! i \<in> set fin" using lf by simp
    then have wfi: "wf_aug n (fin ! i)" using w_old by blast
    have row: "(map ?e fin @ [p']) ! i = ?e (fin ! i)" using True lf by (simp add: nth_append)
    show ?thesis
    proof (cases "c < k")
      case c: True
      show ?thesis unfolding row using e_low [OF wfi c] unitI [OF True c] by simp
    next
      case False
      then have "c = k" using that by simp
      then show ?thesis unfolding row using e_k [OF wfi] True by simp
    qed
  next
    case False
    then have ik: "i = k" using that by simp
    have row: "(map ?e fin @ [p']) ! i = p'" using ik lf by (simp add: nth_append)
    show ?thesis
    proof (cases "c < k")
      case True
      then show ?thesis unfolding row using p'_low [OF True] ik by simp
    next
      case False
      then have "c = k" using that by simp
      then show ?thesis unfolding row using p'_k ik by simp
    qed
  qed
  have c7: "fst t ! c = 0" if "t \<in> set (map ?e rest)" "c < Suc k" for t c
  proof -
    from that obtain q where q: "q \<in> set rest" "t = ?e q" by auto
    then have wq: "wf_aug n q" using w_old by blast
    have qt: "q \<in> set todo" using q rest_todo by blast
    show ?thesis
    proof (cases "c < k")
      case True
      then show ?thesis using e_low [OF wq True] zeroI [OF qt True] q by simp
    next
      case False
      then have "c = k" using that by simp
      then show ?thesis using e_k [OF wq] q by simp
    qed
  qed
  have "gj_inv n A (Suc k) (map ?e fin @ [p']) (map ?e rest)"
    unfolding gj_inv_def
  proof (intro conjI)
    show "mat n n A" by (rule A)
    show "length (map ?e fin @ [p']) = Suc k" using lf by simp
    show "Suc k + length (map ?e rest) = n" using ln lr by simp
    show "\<forall>r\<in>set (map ?e fin @ [p']) \<union> set (map ?e rest). wf_aug n r \<and> vecmat (snd r) A = fst r"
      using c4 by blast
    show "\<forall>i<n. (A ! i, eye n ! i) \<in> span (set (map ?e fin @ [p']) \<union> set (map ?e rest))"
      using c5 by blast
    show "\<forall>i<Suc k. \<forall>c<Suc k. fst ((map ?e fin @ [p']) ! i) ! c = (if i = c then 1 else 0)"
      using c6 by blast
    show "\<forall>t\<in>set (map ?e rest). \<forall>c<Suc k. fst t ! c = 0"
      using c7 by blast
  qed
  then show ?thesis unfolding p'_def .
qed

subsection \<open>The elimination returns the two-sided inverse\<close>

lemma gj_sound:
  "gj_inv n A k fin todo \<Longrightarrow> gauss_jordan k fin todo = Some res \<Longrightarrow> gj_inv n A n res []"
proof (induction k fin todo rule: gauss_jordan.induct)
  case (1 k fin)
  then have "fin = res" "k = n" by (simp_all add: gj_inv_def)
  with "1.prems"(1) show ?case by simp
next
  case (2 k fin t ts)
  from "2.prems"(2) obtain p rest where piv: "find_pivot k (t # ts) = Some (p, rest)"
    and rec: "gauss_jordan (Suc k)
        (map (eliminate k (aug_scale (1 / (fst p ! k)) p)) fin @ [aug_scale (1 / (fst p ! k)) p])
        (map (eliminate k (aug_scale (1 / (fst p ! k)) p)) rest) = Some res"
    by (auto split: option.splits)
  from gj_step [OF "2.prems"(1) piv] "2.IH" [OF piv refl] rec show ?case by blast
qed

lemma gj_fail:
  "gj_inv n A k fin todo \<Longrightarrow> gauss_jordan k fin todo = None \<Longrightarrow>
   \<exists>k' fin' todo'. gj_inv n A k' fin' todo' \<and> todo' \<noteq> [] \<and> find_pivot k' todo' = None"
proof (induction k fin todo rule: gauss_jordan.induct)
  case (1 k fin)
  then show ?case by simp
next
  case (2 k fin t ts)
  show ?case
  proof (cases "find_pivot k (t # ts)")
    case None
    with "2.prems"(1) show ?thesis by blast
  next
    case (Some a)
    obtain p rest where a: "a = (p, rest)" by (cases a)
    have piv: "find_pivot k (t # ts) = Some (p, rest)" using Some a by simp
    have rec: "gauss_jordan (Suc k)
        (map (eliminate k (aug_scale (1 / (fst p ! k)) p)) fin @ [aug_scale (1 / (fst p ! k)) p])
        (map (eliminate k (aug_scale (1 / (fst p ! k)) p)) rest) = None"
      using "2.prems"(2) piv by simp
    from gj_step [OF "2.prems"(1) piv] "2.IH" [OF piv refl] rec show ?thesis by blast
  qed
qed

lemma gj_init:
  assumes "mat n n A"
  shows "gj_inv n A 0 [] (zip A (eye n))"
proof -
  have lA: "length A = n" and lE: "length (eye n) = n"
    using assms eye_mat [of n] by (simp_all add: mat_def)
  have el: "\<exists>i<n. r = (A ! i, eye n ! i)" if "r \<in> set (zip A (eye n))" for r
    using that lA lE by (auto simp: set_zip)
  have mem: "(A ! i, eye n ! i) \<in> set (zip A (eye n))" if "i < n" for i
    using that lA lE by (auto simp: set_zip)
  have rowp: "wf_aug n r \<and> vecmat (snd r) A = fst r" if "r \<in> set (zip A (eye n))" for r
  proof -
    from el [OF that] obtain i where i: "i < n" "r = (A ! i, eye n ! i)" by blast
    then show ?thesis
      using assms eye_mat [of n]
      by (simp add: wf_aug_def mat_row_length [of n n] vecmat_unit [of n])
  qed
  show ?thesis
    unfolding gj_inv_def
  proof (intro conjI)
    show "mat n n A" by (rule assms)
    show "length ([] :: aug list) = 0" by simp
    show "0 + length (zip A (eye n)) = n" using lA lE by simp
    show "\<forall>r\<in>set [] \<union> set (zip A (eye n)). wf_aug n r \<and> vecmat (snd r) A = fst r"
      using rowp by simp
    show "\<forall>i<n. (A ! i, eye n ! i) \<in> span (set [] \<union> set (zip A (eye n)))"
      using mem by (auto intro: span_base)
    show "\<forall>i<0. \<forall>c<0. fst ([] ! i) ! c = (if i = c then 1 else 0)" by simp
    show "\<forall>t\<in>set (zip A (eye n)). \<forall>c<0. fst t ! c = 0" by simp
  qed
qed

lemma span_right_inverse:
  assumes B: "mat n n B" and S: "\<forall>r\<in>S. wf_aug n r \<and> vecmat (fst r) B = snd r"
  shows "r \<in> span S \<Longrightarrow> wf_aug n r \<and> vecmat (fst r) B = snd r"
proof (induction rule: span.induct)
  case (span_base r)
  then show ?case using S by blast
next
  case (span_sub u v)
  then show ?case
    using B by (simp add: wf_aug_def aug_sub_def vecmat_sub [of n])
next
  case (span_scale u c)
  then show ?case
    using B by (simp add: wf_aug_def aug_scale_def vecmat_scale [of n])
qed

lemma gj_final:
  assumes inv: "gj_inv n A n res []"
  shows "mat n n (map snd res) \<and> mat_mul (map snd res) A = eye n \<and> mat_mul A (map snd res) = eye n"
proof -
  let ?B = "map snd res"
  from inv have A: "mat n n A" and lr: "length res = n"
    and rowsI: "\<And>r. r \<in> set res \<Longrightarrow> wf_aug n r \<and> vecmat (snd r) A = fst r"
    and spanI: "\<And>i. i < n \<Longrightarrow> (A ! i, eye n ! i) \<in> span (set res)"
    and unitI: "\<And>i c. i < n \<Longrightarrow> c < n \<Longrightarrow> fst (res ! i) ! c = (if i = c then 1 else 0)"
    unfolding gj_inv_def by simp_all
  have B: "mat n n ?B" using lr rowsI by (auto simp: mat_def wf_aug_def)
  have left: "fst (res ! i) = eye n ! i" if "i < n" for i
  proof (rule nth_equalityI)
    have "wf_aug n (res ! i)" using rowsI [of "res ! i"] that lr by simp
    then show l: "length (fst (res ! i)) = length (eye n ! i)"
      using that eye_mat [of n] by (simp add: wf_aug_def mat_row_length [of n n])
    fix c assume "c < length (fst (res ! i))"
    then have "c < n" using l that eye_mat [of n] by (simp add: mat_row_length [of n n])
    then show "fst (res ! i) ! c = eye n ! i ! c" using that unitI by (simp add: eye_nth)
  qed
  have BA: "mat_mul ?B A = eye n"
  proof (rule nth_equalityI)
    show "length (mat_mul ?B A) = length (eye n)"
      using lr eye_mat [of n] by (simp add: mat_mul_def mat_def)
    fix i assume "i < length (mat_mul ?B A)"
    then have i: "i < n" using lr by (simp add: mat_mul_def)
    have "mat_mul ?B A ! i = vecmat (snd (res ! i)) A" using i lr by (simp add: mat_mul_def)
    also have "\<dots> = fst (res ! i)" using rowsI [of "res ! i"] i lr by simp
    also have "\<dots> = eye n ! i" by (rule left [OF i])
    finally show "mat_mul ?B A ! i = eye n ! i" .
  qed
  have S: "\<forall>r\<in>set res. wf_aug n r \<and> vecmat (fst r) ?B = snd r"
  proof
    fix r assume r: "r \<in> set res"
    then obtain j where j: "j < n" "r = res ! j" using lr by (auto simp: in_set_conv_nth)
    have "vecmat (fst r) ?B = vecmat (eye n ! j) ?B" using left [OF j(1)] j(2) by simp
    also have "\<dots> = ?B ! j" using B j(1) by (rule vecmat_unit)
    also have "\<dots> = snd r" using j lr by simp
    finally show "wf_aug n r \<and> vecmat (fst r) ?B = snd r" using rowsI [OF r] by simp
  qed
  have AB: "mat_mul A ?B = eye n"
  proof (rule nth_equalityI)
    show "length (mat_mul A ?B) = length (eye n)"
      using A eye_mat [of n] by (simp add: mat_mul_def mat_def)
    fix i assume "i < length (mat_mul A ?B)"
    then have i: "i < n" using A by (simp add: mat_mul_def mat_def)
    have "vecmat (fst (A ! i, eye n ! i)) ?B = snd (A ! i, eye n ! i)"
      using span_right_inverse [OF B S spanI [OF i]] by blast
    then show "mat_mul A ?B ! i = eye n ! i" using i A by (simp add: mat_mul_def mat_def)
  qed
  show ?thesis using B BA AB by blast
qed

lemma span_kernel:
  assumes x: "length x = n" and S: "\<forall>r\<in>S. wf_aug n r \<and> dot (fst r) x = 0"
  shows "r \<in> span S \<Longrightarrow> wf_aug n r \<and> dot (fst r) x = 0"
proof (induction rule: span.induct)
  case (span_base r)
  then show ?case using S by blast
next
  case (span_sub u v)
  then show ?case
    using x by (simp add: wf_aug_def aug_sub_def dot_sub [of _ n])
next
  case (span_scale u c)
  then show ?case
    using x by (simp add: wf_aug_def aug_scale_def dot_scale [of _ n])
qed

subsection \<open>The elimination fails on singular matrices only\<close>

text \<open>
  Together, \<open>inverse_m_sound\<close> and \<open>inverse_m_singular\<close> characterise \<open>inverse_m\<close> on
  square matrices: it returns the two-sided inverse when there is one, and raises
  \<open>LinAlgError\<close> exactly when some non-zero vector is sent to zero.
\<close>

lemma sum_if_less:
  fixes g :: "nat \<Rightarrow> real"
  assumes "k \<le> n"
  shows "(\<Sum>c<n. if c < k then g c else 0) = (\<Sum>c<k. g c)"
proof -
  have "(\<Sum>c<n. if c < k then g c else 0) = (\<Sum>c\<in>{..<n} \<inter> {c. c < k}. g c)"
    by (simp add: sum.inter_restrict)
  also have "{..<n} \<inter> {c. c < k} = {..<k}" using assms by auto
  finally show ?thesis .
qed

lemma gj_singular:
  assumes inv: "gj_inv n A k fin todo" and ne: "todo \<noteq> []" and np: "find_pivot k todo = None"
  shows "\<exists>x. length x = n \<and> (\<exists>c<n. x ! c \<noteq> 0) \<and> (\<forall>i<n. dot (A ! i) x = 0)"
proof -
  from inv have A: "mat n n A" and lf: "length fin = k" and ln: "k + length todo = n"
    and rowsI: "\<And>r. r \<in> set fin \<union> set todo \<Longrightarrow> wf_aug n r"
    and spanI: "\<And>i. i < n \<Longrightarrow> (A ! i, eye n ! i) \<in> span (set fin \<union> set todo)"
    and unitI: "\<And>i c. i < k \<Longrightarrow> c < k \<Longrightarrow> fst (fin ! i) ! c = (if i = c then 1 else 0)"
    and zeroI: "\<And>t c. t \<in> set todo \<Longrightarrow> c < k \<Longrightarrow> fst t ! c = 0"
    unfolding gj_inv_def by blast+
  have kn: "k < n" using ln ne by (cases todo) simp_all
  define F where "F c = fst (fin ! c) ! k" for c
  define x where "x = map (\<lambda>c. (if c < k then - F c else 0) + (if c = k then 1 else 0)) [0..<n]"
  have lx: "length x = n" by (simp add: x_def)
  have xn: "x ! c = (if c < k then - F c else 0) + (if c = k then 1 else 0)" if "c < n" for c
    using that by (simp add: x_def)
  have xk: "x ! k = 1" using kn by (simp add: xn)
  have dotx: "dot (fst r) x = fst r ! k - (\<Sum>c<k. fst r ! c * F c)" if "wf_aug n r" for r
  proof -
    have "dot (fst r) x = (\<Sum>c<n. fst r ! c * x ! c)"
      using that lx by (simp add: dot_sum [of _ n] wf_aug_def)
    also have "\<dots> = (\<Sum>c<n. (if c < k then - (fst r ! c * F c) else 0) + fst r ! c * (if c = k then 1 else 0))"
      by (intro sum.cong) (simp_all add: xn algebra_simps)
    also have "\<dots> = (\<Sum>c<n. if c < k then - (fst r ! c * F c) else 0) + (\<Sum>c<n. fst r ! c * (if c = k then 1 else 0))"
      by (simp only: sum.distrib)
    also have "\<dots> = (\<Sum>c<k. - (fst r ! c * F c)) + fst r ! k"
      using kn by (simp only: sum_if_less [of k n] sum_delta_right less_imp_le)
    also have "\<dots> = fst r ! k - (\<Sum>c<k. fst r ! c * F c)"
      by (simp add: sum_negf)
    finally show ?thesis .
  qed
  have S: "\<forall>r\<in>set fin \<union> set todo. wf_aug n r \<and> dot (fst r) x = 0"
  proof
    fix r assume r: "r \<in> set fin \<union> set todo"
    have w: "wf_aug n r" using rowsI [OF r] .
    show "wf_aug n r \<and> dot (fst r) x = 0"
    proof (cases "r \<in> set todo")
      case True
      have "fst r ! k = 0" using find_pivot_None [OF np] True by blast
      moreover have "(\<Sum>c<k. fst r ! c * F c) = 0"
        using zeroI [OF True] by (intro sum.neutral) simp
      ultimately show ?thesis using w dotx [OF w] by simp
    next
      case False
      then have "r \<in> set fin" using r by blast
      then obtain i where i: "i < k" "r = fin ! i" using lf by (auto simp: in_set_conv_nth)
      have "(\<Sum>c<k. fst r ! c * F c) = (\<Sum>c<k. (if i = c then 1 else 0) * F c)"
        using unitI [OF i(1)] i(2) by (intro sum.cong) simp_all
      also have "\<dots> = F i" using i(1) by (simp only: sum_delta_left)
      also have "\<dots> = fst r ! k" using i(2) by (simp add: F_def)
      finally show ?thesis using w dotx [OF w] by simp
    qed
  qed
  have "dot (A ! i) x = 0" if "i < n" for i
    using span_kernel [OF lx S spanI [OF that]] by simp
  then show ?thesis using lx xk kn by (intro exI [of _ x]) auto
qed

lemma inverse_m_sound:
  assumes "mat n n A" "inverse_m A = Inr B"
  shows "mat n n B \<and> mat_mul B A = eye n \<and> mat_mul A B = eye n"
proof -
  have rc: "rows A = n" "cols A = n" using assms(1) by (simp_all add: mat_rows mat_cols_square)
  from assms(2) obtain res where res: "gauss_jordan 0 [] (zip A (eye n)) = Some res" "B = map snd res"
    by (auto simp: inverse_m_def rc split: option.splits)
  have "gj_inv n A n res []" using gj_init [OF assms(1)] res(1) by (rule gj_sound)
  then show ?thesis unfolding res(2) by (rule gj_final)
qed

lemma inverse_m_singular:
  assumes "mat n n A" "inverse_m A = Inl e"
  shows "e = LinAlgError \<and> (\<exists>x. length x = n \<and> (\<exists>c<n. x ! c \<noteq> 0) \<and> (\<forall>i<n. dot (A ! i) x = 0))"
proof -
  have rc: "rows A = n" "cols A = n" using assms(1) by (simp_all add: mat_rows mat_cols_square)
  from assms(2) have e: "e = LinAlgError" and none: "gauss_jordan 0 [] (zip A (eye n)) = None"
    by (auto simp: inverse_m_def rc split: option.splits)
  from gj_fail [OF gj_init [OF assms(1)] none] obtain k fin todo
    where "gj_inv n A k fin todo" "todo \<noteq> []" "find_pivot k todo = None" by blast
  then show ?thesis using e gj_singular by blast
qed

lemma inverse_m_complete:
  assumes "mat n n A"
    and "\<And>x. length x = n \<Longrightarrow> (\<forall>i<n. dot (A ! i) x = 0) \<Longrightarrow> (\<forall>c<n. x ! c = 0)"
  shows "\<exists>B. inverse_m A = Inr B"
proof (cases "inverse_m A")
  case (Inl e)
  from inverse_m_singular [OF assms(1) Inl] obtain x
    where "length x = n" "\<exists>c<n. x ! c \<noteq> 0" "\<forall>i<n. dot (A ! i) x = 0" by blast
  with assms(2) show ?thesis by blast
next
  case (Inr B)
  then show ?thesis by blast
qed

lemma cayley_kernel:
  assumes Q: "skew n Q" and lx: "length x = n"
    and ker: "\<forall>i<n. dot (map2 (map2 (-)) (eye n) Q ! i) x = 0"
  shows "\<forall>c<n. x ! c = 0"
proof -
  have mQ: "mat n n Q" using Q by (rule skew_mat)
  have M: "mat n n (map2 (map2 (-)) (eye n) Q)" using mQ by (rule minus_eye_mat)
  have xi: "x ! i = (\<Sum>k<n. Q ! i ! k * x ! k)" if "i < n" for i
  proof -
    have "dot (map2 (map2 (-)) (eye n) Q ! i) x = (\<Sum>k<n. map2 (map2 (-)) (eye n) Q ! i ! k * x ! k)"
      using M that lx by (simp add: dot_sum [of _ n] mat_row_length [of n n])
    also have "\<dots> = (\<Sum>k<n. (if i = k then 1 else 0) * x ! k - Q ! i ! k * x ! k)"
      using mQ that by (intro sum.cong) (simp_all add: minus_eye_nth left_diff_distrib)
    also have "\<dots> = (\<Sum>k<n. (if i = k then 1 else 0) * x ! k) - (\<Sum>k<n. Q ! i ! k * x ! k)"
      by (simp only: sum_subtractf)
    also have "\<dots> = x ! i - (\<Sum>k<n. Q ! i ! k * x ! k)"
      using that by (simp only: sum_delta_left)
    finally show ?thesis using ker that by simp
  qed
  define S where "S = (\<Sum>i<n. \<Sum>k<n. x ! i * (Q ! i ! k * x ! k))"
  have sq: "(\<Sum>i<n. (x ! i)\<^sup>2) = S"
  proof -
    have "(\<Sum>i<n. (x ! i)\<^sup>2) = (\<Sum>i<n. x ! i * (\<Sum>k<n. Q ! i ! k * x ! k))"
      by (intro sum.cong refl) (use xi in \<open>simp add: power2_eq_square\<close>)
    then show ?thesis by (simp add: S_def sum_distrib_left)
  qed
  have "S = (\<Sum>i<n. \<Sum>k<n. - (x ! k * (Q ! k ! i * x ! i)))"
    unfolding S_def
  proof (intro sum.cong refl)
    fix i k assume "i \<in> {..<n}" "k \<in> {..<n}"
    then have "Q ! i ! k = - (Q ! k ! i)" using skew_nth [OF Q, of i k] by simp
    then show "x ! i * (Q ! i ! k * x ! k) = - (x ! k * (Q ! k ! i * x ! i))"
      by (simp only: ) (simp add: algebra_simps)
  qed
  also have "\<dots> = - (\<Sum>i<n. \<Sum>k<n. x ! k * (Q ! k ! i * x ! i))"
    by (simp only: sum_negf)
  also have "\<dots> = - (\<Sum>k<n. \<Sum>i<n. x ! k * (Q ! k ! i * x ! i))"
    by (subst sum.swap) (rule refl)
  also have "\<dots> = - S" by (simp only: S_def)
  finally have "S = 0" by simp
  then have "(\<Sum>i<n. (x ! i)\<^sup>2) = 0" using sq by simp
  then have "\<forall>i\<in>{..<n}. (x ! i)\<^sup>2 = 0"
    by (subst (asm) sum_nonneg_eq_0_iff) simp_all
  then show ?thesis by simp
qed

lemma cayley_inverse:
  assumes "skew n Q"
  shows "\<exists>B. inverse_m (map2 (map2 (-)) (eye n) Q) = Inr B \<and> mat n n B
     \<and> mat_mul B (map2 (map2 (-)) (eye n) Q) = eye n
     \<and> mat_mul (map2 (map2 (-)) (eye n) Q) B = eye n"
proof -
  have M: "mat n n (map2 (map2 (-)) (eye n) Q)" using assms by (simp add: minus_eye_mat skew_mat)
  from inverse_m_complete [OF M cayley_kernel [OF assms]] obtain B
    where "inverse_m (map2 (map2 (-)) (eye n) Q) = Inr B" by blast
  then show ?thesis using inverse_m_sound [OF M] by blast
qed

subsection \<open>Batches\<close>

lemma sequence_map_Inr: "(\<And>x. x \<in> set xs \<Longrightarrow> g x = Inr (h x)) \<Longrightarrow> sequence (map g xs) = Inr (map h xs)"
  by (induction xs) (simp_all add: rbind_def)

lemma map2_same: "map2 f xs (map g xs) = map (\<lambda>x. f x (g x)) xs"
  by (induction xs) simp_all

lemma map2_replicate: "length ys = n \<Longrightarrow> map2 f (replicate n a) ys = map (f a) ys"
  by (induction ys arbitrary: n) auto

lemma map2_map_map: "map2 f (map g xs) (map h xs) = map (\<lambda>x. f (g x) (h x)) xs"
  by (induction xs) simp_all

lemma tensor3_length: "tensor3 n r c X \<Longrightarrow> length X = n"
  by (simp add: tensor3_def)

lemma tensor3_mat: "tensor3 n r c X \<Longrightarrow> A \<in> set X \<Longrightarrow> mat r c A"
  by (simp add: tensor3_def)

lemma broadcast3_same:
  assumes "tensor3 n r c X" "tensor3 n r c Y"
  shows "broadcast3 f X Y = Inr (map2 (\<lambda>A B. map2 (map2 f) A B) X Y)"
proof -
  have l: "length X = n" "length Y = n" using assms by (simp_all add: tensor3_def)
  have "sequence (map (\<lambda>(A, B). broadcast2 f A B) (zip X Y))
      = Inr (map (\<lambda>(A, B). map2 (map2 f) A B) (zip X Y))"
  proof (rule sequence_map_Inr)
    fix x assume "x \<in> set (zip X Y)"
    then have "(fst x, snd x) \<in> set (zip X Y)" by simp
    then have "fst x \<in> set X" "snd x \<in> set Y"
      by (rule set_zip_leftD, rule set_zip_rightD)
    then have "mat r c (fst x)" "mat r c (snd x)" using assms by (simp_all add: tensor3_def)
    then have "broadcast2 f (fst x) (snd x) = Inr (map2 (map2 f) (fst x) (snd x))"
      by (rule broadcast2_same)
    then show "(case x of (A, B) \<Rightarrow> broadcast2 f A B) = Inr (case x of (A, B) \<Rightarrow> map2 (map2 f) A B)"
      by (simp add: case_prod_beta)
  qed
  then show ?thesis by (simp add: broadcast3_def bdim_def l expand_def)
qed

lemma tensor3_transpose12: "tensor3 n b b X \<Longrightarrow> tensor3 n b b (transpose12 X)"
  by (auto simp: tensor3_def transpose12_def transpose_mat)

lemma tensor3_replicate: "mat r c A \<Longrightarrow> tensor3 n r c (replicate n A)"
  by (simp add: tensor3_def)

lemma tensor3_map: "length X = n \<Longrightarrow> (\<And>A. A \<in> set X \<Longrightarrow> mat r c (f A)) \<Longrightarrow> tensor3 n r c (map f X)"
  by (auto simp: tensor3_def)

subsection \<open>Skew-symmetric blocks\<close>

lemma scale_m_mat: "mat r c A \<Longrightarrow> mat r c (scale_m s A)"
  by (simp add: mat_def scale_m_def)

lemma scale_m_nth: "mat r c A \<Longrightarrow> i < r \<Longrightarrow> j < c \<Longrightarrow> scale_m s A ! i ! j = s * A ! i ! j"
  by (simp add: mat_def scale_m_def)

lemma skew_sub_transpose:
  assumes "mat b b P"
  shows "skew b (map2 (map2 (-)) P (transpose_m P))"
  unfolding skew_def
proof (intro conjI allI impI)
  have T: "mat b b (transpose_m P)" using assms by (rule transpose_mat)
  show "mat b b (map2 (map2 (-)) P (transpose_m P))" using assms T by (rule ew_mat)
  fix i j assume ij: "i < b" "j < b"
  have "map2 (map2 (-)) P (transpose_m P) ! i ! j = P ! i ! j - P ! j ! i"
    using ew_nth [OF assms T ij, of "(-)"] assms ij by (simp add: transpose_nth [of b])
  moreover have "map2 (map2 (-)) P (transpose_m P) ! j ! i = P ! j ! i - P ! i ! j"
    using ew_nth [OF assms T ij(2) ij(1), of "(-)"] assms ij by (simp add: transpose_nth [of b])
  ultimately show "map2 (map2 (-)) P (transpose_m P) ! i ! j = - (map2 (map2 (-)) P (transpose_m P) ! j ! i)"
    by simp
qed

lemma skew_scale:
  assumes "skew b Q"
  shows "skew b (scale_m s Q)"
  unfolding skew_def
proof (intro conjI allI impI)
  have mQ: "mat b b Q" using assms by (rule skew_mat)
  show "mat b b (scale_m s Q)" using mQ by (rule scale_m_mat)
  fix i j assume ij: "i < b" "j < b"
  have "scale_m s Q ! i ! j = s * Q ! i ! j" "scale_m s Q ! j ! i = s * Q ! j ! i"
    using mQ ij by (simp_all add: scale_m_nth [of b b])
  moreover have "Q ! i ! j = - (Q ! j ! i)" using assms ij by (rule skew_nth)
  ultimately show "scale_m s Q ! i ! j = - (scale_m s Q ! j ! i)" by simp
qed

subsection \<open>The steps of \<open>get_weight\<close> on a well-formed adapter\<close>

lemma cayley_props:
  assumes "skew b Q"
  shows "\<exists>B. inverse_m (map2 (map2 (-)) (eye b) Q) = Inr B \<and> mat b b B
      \<and> cayley b Q = mat_mul (map2 (map2 (+)) (eye b) Q) B
      \<and> mat b b (cayley b Q)
      \<and> mat_mul (cayley b Q) (transpose_m (cayley b Q)) = eye b"
proof -
  from cayley_inverse [OF assms] obtain B
    where B: "inverse_m (map2 (map2 (-)) (eye b) Q) = Inr B" "mat b b B"
      "mat_mul B (map2 (map2 (-)) (eye b) Q) = eye b"
      "mat_mul (map2 (map2 (-)) (eye b) Q) B = eye b"
    by blast
  have c: "cayley b Q = mat_mul (map2 (map2 (+)) (eye b) Q) B" by (simp add: cayley_def B(1))
  have P: "mat b b (map2 (map2 (+)) (eye b) Q)" using assms by (simp add: plus_eye_mat skew_mat)
  have m: "mat b b (cayley b Q)" unfolding c using P B(2) by (rule mat_mul_mat)
  have o: "mat_mul (cayley b Q) (transpose_m (cayley b Q)) = eye b"
    unfolding c using assms B(3) B(4) B(2) by (rule cayley_orthogonal)
  show ?thesis using B(1) B(2) c m o by blast
qed

lemma cayley_chain:
  assumes l: "length Qs = n" and sk: "\<And>q. q \<in> set Qs \<Longrightarrow> skew b q"
  shows "rbind (tadd3 (repeat_t n (eye b)) Qs) (\<lambda>num.
         rbind (tsub3 (repeat_t n (eye b)) Qs) (\<lambda>den.
         rbind (inverse3 den) (\<lambda>inv. matmul3 num inv)))
       = Inr (map (cayley b) Qs)"
proof -
  let ?P = "\<lambda>q. map2 (map2 (+)) (eye b) q" and ?M = "\<lambda>q. map2 (map2 (-)) (eye b) q"
  let ?H = "\<lambda>q. projr (inverse_m (?M q))"
  have tI: "tensor3 n b b (replicate n (eye b))" using eye_mat by (rule tensor3_replicate)
  have tQ: "tensor3 n b b Qs" using l sk by (auto simp: tensor3_def skew_mat)
  have add: "tadd3 (repeat_t n (eye b)) Qs = Inr (map ?P Qs)"
    unfolding tadd3_def repeat_t_def broadcast3_same [OF tI tQ] using l by (simp add: map2_replicate)
  have sub: "tsub3 (repeat_t n (eye b)) Qs = Inr (map ?M Qs)"
    unfolding tsub3_def repeat_t_def broadcast3_same [OF tI tQ] using l by (simp add: map2_replicate)
  have inv1: "inverse_m (?M q) = Inr (?H q)" if "q \<in> set Qs" for q
    using cayley_props [OF sk [OF that]] by auto
  have inv: "inverse3 (map ?M Qs) = Inr (map ?H Qs)"
    unfolding inverse3_def map_map o_def using inv1 by (rule sequence_map_Inr)
  have mm1: "matmul (?P q) (?H q) = Inr (cayley b q)" if "q \<in> set Qs" for q
  proof -
    from cayley_props [OF sk [OF that]] obtain B
      where B: "inverse_m (?M q) = Inr B" "mat b b B" "cayley b q = mat_mul (?P q) B" by blast
    have "mat b b (?P q)" using sk [OF that] by (simp add: plus_eye_mat skew_mat)
    then have "cols (?P q) = b" by (rule mat_cols_square)
    moreover have "rows B = b" using B(2) by (rule mat_rows)
    ultimately show ?thesis using B by (simp add: matmul_def)
  qed
  have mm: "matmul3 (map ?P Qs) (map ?H Qs) = Inr (map (cayley b) Qs)"
  proof -
    have "sequence (map (\<lambda>q. matmul (?P q) (?H q)) Qs) = Inr (map (cayley b) Qs)"
      using mm1 by (rule sequence_map_Inr)
    then show ?thesis by (simp add: matmul3_def bdim_def expand_def map2_map_map)
  qed
  show ?thesis by (simp add: add sub inv mm rbind_def)
qed

lemma rescaled_Q_valid:
  assumes "valid self"
  shows "rescaled_Q self
     = Inr (scale3 (rescale (constraint self) (skew_blocks (oft_blocks self)))
              (skew_blocks (oft_blocks self)))"
proof -
  let ?n = "num_blocks self" and ?b = "block_size self" and ?X = "oft_blocks self"
  have t: "tensor3 ?n ?b ?b ?X" using assms by (simp add: valid_def)
  have "tsub3 ?X (transpose12 ?X) = Inr (map2 (\<lambda>A B. map2 (map2 (-)) A B) ?X (transpose12 ?X))"
    unfolding tsub3_def using t tensor3_transpose12 [OF t] by (rule broadcast3_same)
  also have "map2 (\<lambda>A B. map2 (map2 (-)) A B) ?X (transpose12 ?X) = skew_blocks ?X"
    unfolding transpose12_def skew_blocks_def by (rule map2_same)
  finally show ?thesis
    by (simp add: rescaled_Q_def rbind_def Let_def rescale_def)
qed

lemma rescaled_Q_skew:
  assumes "valid self"
  shows "\<exists>Qs. rescaled_Q self = Inr Qs \<and> length Qs = num_blocks self
      \<and> (\<forall>q\<in>set Qs. skew (block_size self) q)"
proof -
  have t: "tensor3 (num_blocks self) (block_size self) (block_size self) (oft_blocks self)"
    using assms by (simp add: valid_def)
  have "skew (block_size self) (scale_m s (map2 (map2 (-)) P (transpose_m P)))"
    if "P \<in> set (oft_blocks self)" for P s
    using tensor3_mat [OF t that] by (intro skew_scale skew_sub_transpose)
  then show ?thesis
    using rescaled_Q_valid [OF assms] tensor3_length [OF t]
    by (auto simp: scale3_def skew_blocks_def)
qed

lemma block_R_valid:
  assumes "valid self"
  shows "\<exists>Qs. rescaled_Q self = Inr Qs \<and> length Qs = num_blocks self
      \<and> (\<forall>q\<in>set Qs. skew (block_size self) q)
      \<and> block_R self = Inr (map (cayley (block_size self)) Qs)"
proof -
  from rescaled_Q_skew [OF assms] obtain Qs where
    Qs: "rescaled_Q self = Inr Qs" "length Qs = num_blocks self"
      "\<And>q. q \<in> set Qs \<Longrightarrow> skew (block_size self) q"
    by blast
  have "block_R self = Inr (map (cayley (block_size self)) Qs)"
    using cayley_chain [OF Qs(2) Qs(3)] by (simp add: block_R_def Qs(1) rbind_def Let_def)
  then show ?thesis using Qs by blast
qed

lemma blend_mat: "mat b b R \<Longrightarrow> mat b b (blend m b R)"
  unfolding blend_def by (intro ew_mat scale_m_mat eye_mat)

lemma get_weight_valid:
  assumes "valid self"
  shows "\<exists>Qs. rescaled_Q self = Inr Qs \<and> length Qs = num_blocks self
      \<and> (\<forall>q\<in>set Qs. skew (block_size self) q)
      \<and> get_weight self
          = Inr (block_diag (map (\<lambda>q. blend (oft_multiplier self) (block_size self)
                                         (cayley (block_size self) q)) Qs))"
proof -
  let ?n = "num_blocks self" and ?b = "block_size self" and ?m = "oft_multiplier self"
  from block_R_valid [OF assms] obtain Qs where
    Qs: "rescaled_Q self = Inr Qs" "length Qs = ?n" "\<And>q. q \<in> set Qs \<Longrightarrow> skew ?b q"
      "block_R self = Inr (map (cayley ?b) Qs)"
    by blast
  have mc: "mat ?b ?b (cayley ?b q)" if "q \<in> set Qs" for q
    using cayley_props [OF Qs(3) [OF that]] by blast
  have t1: "tensor3 ?n ?b ?b (scale3 ?m (map (cayley ?b) Qs))"
    unfolding scale3_def map_map using Qs(2) by (rule tensor3_map) (simp add: scale_m_mat mc)
  have t2: "tensor3 ?n ?b ?b (scale3 (1 - ?m) (repeat_t ?n (eye ?b)))"
    unfolding scale3_def repeat_t_def map_replicate
    by (intro tensor3_replicate scale_m_mat eye_mat)
  have "tadd3 (scale3 ?m (map (cayley ?b) Qs)) (scale3 (1 - ?m) (repeat_t ?n (eye ?b)))
      = Inr (map2 (\<lambda>A B. map2 (map2 (+)) A B) (scale3 ?m (map (cayley ?b) Qs))
               (scale3 (1 - ?m) (repeat_t ?n (eye ?b))))"
    unfolding tadd3_def using t1 t2 by (rule broadcast3_same)
  also have "map2 (\<lambda>A B. map2 (map2 (+)) A B) (scale3 ?m (map (cayley ?b) Qs))
               (scale3 (1 - ?m) (repeat_t ?n (eye ?b)))
      = map (\<lambda>q. blend ?m ?b (cayley ?b q)) Qs"
  proof -
    have "replicate ?n (scale_m (1 - ?m) (eye ?b)) = map (\<lambda>q. scale_m (1 - ?m) (eye ?b)) Qs"
      using Qs(2) by (simp add: map_replicate_const)
    then show ?thesis
      by (simp add: scale3_def repeat_t_def map2_map_map blend_def)
  qed
  finally have "get_weight self = Inr (block_diag (map (\<lambda>q. blend ?m ?b (cayley ?b q)) Qs))"
    by (simp add: get_weight_def Qs(4) rbind_def Let_def)
  then show ?thesis using Qs by blast
qed

section \<open>The constructor\<close>

lemma init_example: "init \<lparr> net_multiplier = mu \<rparr> (example_weights linear4) = Inr (example_module mu)"
proof -
  have len: "length example_blocks = 2"
    by (simp add: example_blocks_def)
  show ?thesis
    by (simp add: init_def example_weights_def example_module_def linear4_def
        assign_out_dim_def multiplier_def len)
qed

text \<open>
  C10: when the class name of the target layer contains neither \<open>Linear\<close> nor \<open>Conv\<close>,
  \<open>out_dim\<close> is never assigned and the constructor fails: with the \<open>AttributeError\<close> of
  the read in the constraint computation when both weights are present, with the
  \<open>KeyError\<close> of the earlier dictionary reads otherwise. It never returns a module.
\<close>

theorem init_fails_without_out_dim:
  assumes "\<not> sublist ''Linear'' (class_name (w_sd_module weights))"
    and "\<not> sublist ''Conv'' (class_name (w_sd_module weights))"
  shows "assign_out_dim (w_sd_module weights) = Inr None
     \<and> init net weights =
         Inl (if w_oft_blocks weights = None \<or> w_alpha weights = None then KeyError
              else AttributeError)"
  using assms by (auto simp: init_def assign_out_dim_def split: option.splits)

theorem init_fails_without_out_dim_witness:
  "\<not> sublist ''Linear'' (class_name (w_sd_module (example_weights group_norm)))
   \<and> \<not> sublist ''Conv'' (class_name (w_sd_module (example_weights group_norm)))
   \<and> init \<lparr> net_multiplier = 1 \<rparr> (example_weights group_norm) = Inl AttributeError"
proof -
  have a: "\<not> sublist ''Linear'' (class_name (w_sd_module (example_weights group_norm)))"
    unfolding example_weights_def group_norm_def by code_simp
  have b: "\<not> sublist ''Conv'' (class_name (w_sd_module (example_weights group_norm)))"
    unfolding example_weights_def group_norm_def by code_simp
  from init_fails_without_out_dim [OF a b, of "\<lparr> net_multiplier = 1 \<rparr>"] a b show ?thesis
    by (simp add: example_weights_def)
qed

section \<open>The two call sites\<close>

lemma calc_updown_R_unfold: "calc_updown_R self W = get_weight self"
  by (simp add: calc_updown_R_def get_weight_def block_R_def rescaled_Q_def to_dtype_def
      Let_def rbind_def split: sum.splits)

text \<open>
  C9: the matrix \<open>R\<close> assembled inside \<open>calc_updown\<close> is the matrix that \<open>get_weight\<close>
  returns, for every adapter and every original weight, failures included.
\<close>

theorem calc_updown_rotation_is_get_weight:
  "calc_updown_R self orig_weight = get_weight self"
  by (simp add: calc_updown_R_def get_weight_def block_R_def rescaled_Q_def to_dtype_def
      Let_def rbind_def split: sum.splits)

section \<open>The rotation of a well-formed adapter\<close>

subsection \<open>Norm\<close>

lemma flatten_scale3: "flatten (scale3 s X) = map (\<lambda>x. s * x) (flatten X)"
  by (simp add: flatten_def scale3_def scale_m_def [abs_def] map_concat o_def)

lemma sum_squares_scale: "sum_list (map (\<lambda>x. x\<^sup>2) (map (\<lambda>x. s * x) v)) = s\<^sup>2 * sum_list (map (\<lambda>x. x\<^sup>2) (v :: real list))"
  by (induction v) (simp_all add: power_mult_distrib algebra_simps)

lemma norm_t_scale: "norm_t (map (\<lambda>x. s * x) v) = \<bar>s\<bar> * norm_t v"
  by (simp only: norm_t_def sum_squares_scale real_sqrt_mult real_sqrt_abs)

lemma norm_t_nonneg: "0 \<le> norm_t v"
  by (auto simp: norm_t_def intro!: sum_list_nonneg)

lemma eps_pos: "0 < eps"
  by (simp add: eps_def)

lemma rescale_bound:
  assumes N: "0 \<le> N" and c: "0 \<le> c"
  shows "\<bar>(clamp_max N c + eps) / (N + eps)\<bar> * N \<le> c + eps"
proof -
  let ?a = "clamp_max N c + eps"
  have a: "0 < ?a" using N c eps_pos by (simp add: clamp_max_def)
  have d: "0 < N + eps" using N eps_pos by simp
  have "\<bar>?a / (N + eps)\<bar> * N = ?a * (N / (N + eps))" using a d by simp
  also have "\<dots> \<le> ?a * 1"
    using a d N eps_pos by (intro mult_left_mono) simp_all
  also have "\<dots> \<le> c + eps" by (simp add: clamp_max_def)
  finally show ?thesis .
qed

subsection \<open>Identity blocks\<close>

lemma blend_nth:
  "mat b b R \<Longrightarrow> i < b \<Longrightarrow> j < b \<Longrightarrow>
   blend m b R ! i ! j = m * R ! i ! j + (1 - m) * (if i = j then 1 else 0)"
  unfolding blend_def
  using ew_nth [of b b "scale_m m R" "scale_m (1 - m) (eye b)" i j "(+)"]
  by (simp add: scale_m_mat eye_mat scale_m_nth [of b b] eye_nth)

lemma blend_zero: "mat b b R \<Longrightarrow> blend 0 b R = eye b"
  by (rule mat_ext [of b b]) (simp_all add: blend_mat eye_mat blend_nth eye_nth)

lemma blend_eye: "blend m b (eye b) = eye b"
  by (rule mat_ext [of b b]) (simp_all add: blend_mat eye_mat blend_nth eye_nth algebra_simps)

lemma eye_split:
  "eye (a + c) = map (\<lambda>row. row @ replicate c 0) (eye a) @ map (\<lambda>row. replicate a 0 @ row) (eye c)"
proof (rule mat_ext [of "a + c" "a + c"])
  let ?R = "map (\<lambda>row. row @ replicate c 0) (eye a) @ map (\<lambda>row. replicate a 0 @ row) (eye c)"
  have la: "length (eye a) = a" and lc: "length (eye c) = c" by (simp_all add: eye_def)
  have ra: "length (eye a ! i) = a" if "i < a" for i using that by (simp add: eye_def)
  have rc: "length (eye c ! i) = c" if "i < c" for i using that by (simp add: eye_def)
  show "mat (a + c) (a + c) (eye (a + c))" by (rule eye_mat)
  show "mat (a + c) (a + c) ?R"
    using eye_mat [of a] eye_mat [of c] by (auto simp: mat_def)
  fix i j assume ij: "i < a + c" "j < a + c"
  show "eye (a + c) ! i ! j = ?R ! i ! j"
  proof (cases "i < a")
    case True
    then have "?R ! i = eye a ! i @ replicate c 0" by (simp add: nth_append la)
    then show ?thesis using True ij ra [OF True]
      by (cases "j < a") (auto simp: nth_append eye_nth)
  next
    case False
    then have i': "i - a < c" using ij by simp
    have "?R ! i = replicate a 0 @ eye c ! (i - a)" using False i' by (simp add: nth_append la lc)
    then show ?thesis using False ij i' rc [OF i']
      by (cases "j < a") (auto simp: nth_append eye_nth)
  qed
qed

lemma block_diag_eye: "block_diag (replicate n (eye b)) = eye (n * b)"
proof (induction n)
  case 0
  then show ?case by (simp add: eye_def)
next
  case (Suc n)
  have "cols (eye b) = b" "cols (eye (n * b)) = n * b"
    using eye_mat by (simp_all add: mat_cols_square)
  then show ?case using Suc by (simp add: eye_split [of b "n * b"])
qed

lemma valid_example: "valid (example_module mu)"
  by (simp add: valid_def example_module_def example_blocks_def tensor3_def mat_def)

lemma init_constraint: "init net weights = Inr self \<Longrightarrow> constraint self = alpha self * real (out_dim self)"
  by (auto simp: init_def split: option.splits sum.splits if_splits)

text \<open>
  C4: for every well-formed adapter built by the constructor with \<open>alpha \<ge> 0\<close>, the
  skew-symmetric, rescaled \<open>block_Q\<close> has a norm of at most \<open>alpha * out_dim + eps\<close>.
\<close>

theorem rescaled_norm_bounded:
  assumes "init net weights = Inr self" and "valid self" and "0 \<le> alpha self"
  shows "\<exists>Q. rescaled_Q self = Inr Q
     \<and> norm_t (flatten Q) \<le> alpha self * real (out_dim self) + eps"
proof -
  let ?S = "skew_blocks (oft_blocks self)"
  have c: "constraint self = alpha self * real (out_dim self)" using assms(1) by (rule init_constraint)
  have c0: "0 \<le> constraint self" unfolding c using assms(3) by simp
  have "norm_t (flatten (scale3 (rescale (constraint self) ?S) ?S))
      = \<bar>rescale (constraint self) ?S\<bar> * norm_t (flatten ?S)"
    by (simp only: flatten_scale3 norm_t_scale)
  also have "\<dots> \<le> constraint self + eps"
    unfolding rescale_def using norm_t_nonneg c0 by (rule rescale_bound)
  finally show ?thesis using rescaled_Q_valid [OF assms(2)] c by simp
qed

theorem rescaled_norm_bounded_witness:
  "init \<lparr> net_multiplier = 1 \<rparr> (example_weights linear4) = Inr (example_module 1)
   \<and> valid (example_module 1) \<and> 0 \<le> alpha (example_module 1)
   \<and> (\<exists>Q. rescaled_Q (example_module 1) = Inr Q
         \<and> norm_t (flatten Q) \<le> alpha (example_module 1) * real (out_dim (example_module 1)) + eps)"
proof -
  have a: "0 \<le> alpha (example_module 1)" by (simp add: example_module_def)
  from rescaled_norm_bounded [OF init_example valid_example a] init_example [of 1] valid_example [of 1] a
  show ?thesis by blast
qed

lemma get_weight_multiplier_zero:
  assumes "valid self" and "oft_multiplier self = 0"
  shows "get_weight self = Inr (eye (num_blocks self * block_size self))"
proof -
  let ?b = "block_size self"
  from get_weight_valid [OF assms(1)] obtain Qs where
    Qs: "length Qs = num_blocks self" "\<And>q. q \<in> set Qs \<Longrightarrow> skew ?b q"
      "get_weight self = Inr (block_diag (map (\<lambda>q. blend (oft_multiplier self) ?b (cayley ?b q)) Qs))"
    by blast
  have "blend 0 ?b (cayley ?b q) = eye ?b" if "q \<in> set Qs" for q
    using cayley_props [OF Qs(2) [OF that]] by (intro blend_zero) blast
  then have "map (\<lambda>q. blend 0 ?b (cayley ?b q)) Qs = map (\<lambda>q. eye ?b) Qs" by simp
  also have "\<dots> = replicate (num_blocks self) (eye ?b)" using Qs(1) by (simp add: map_replicate_const)
  finally show ?thesis using Qs(3) assms(2) by (simp add: block_diag_eye)
qed

subsection \<open>Zero blocks\<close>

lemma zero_mat_mat: "mat b b (zero_mat b)"
  by (simp add: mat_def zero_mat_def)

lemma zero_mat_nth: "i < b \<Longrightarrow> j < b \<Longrightarrow> zero_mat b ! i ! j = 0"
  by (simp add: zero_mat_def)


lemma skew_zero: "skew b (zero_mat b)"
  by (simp add: skew_def zero_mat_mat zero_mat_nth)

lemma sub_transpose_zero: "map2 (map2 (-)) (zero_mat b) (transpose_m (zero_mat b)) = zero_mat b"
proof (rule mat_ext [of b b])
  have T: "mat b b (transpose_m (zero_mat b))" using zero_mat_mat by (rule transpose_mat)
  show "mat b b (map2 (map2 (-)) (zero_mat b) (transpose_m (zero_mat b)))"
    using zero_mat_mat T by (rule ew_mat)
  show "mat b b (zero_mat b)" by (rule zero_mat_mat)
  fix i j assume ij: "i < b" "j < b"
  show "map2 (map2 (-)) (zero_mat b) (transpose_m (zero_mat b)) ! i ! j = zero_mat b ! i ! j"
    using ew_nth [OF zero_mat_mat T ij, of "(-)"] ij
    by (simp add: transpose_nth [of b] zero_mat_mat zero_mat_nth)
qed

lemma scale_zero: "scale_m s (zero_mat b) = zero_mat b"
  by (simp add: scale_m_def zero_mat_def)

lemma minus_eye_zero: "map2 (map2 (-)) (eye b) (zero_mat b) = eye b"
  by (rule mat_ext [of b b])
    (simp_all add: minus_eye_mat minus_eye_nth zero_mat_mat zero_mat_nth eye_mat eye_nth)

lemma plus_eye_zero: "map2 (map2 (+)) (eye b) (zero_mat b) = eye b"
  by (rule mat_ext [of b b])
    (simp_all add: plus_eye_mat plus_eye_nth zero_mat_mat zero_mat_nth eye_mat eye_nth)

lemma cayley_zero: "cayley b (zero_mat b) = eye b"
proof -
  from cayley_props [OF skew_zero, of b] obtain B
    where B: "inverse_m (eye b) = Inr B" "mat b b B" "cayley b (zero_mat b) = mat_mul (eye b) B"
    by (auto simp: minus_eye_zero plus_eye_zero)
  from inverse_m_sound [OF eye_mat B(1)] have "mat_mul B (eye b) = eye b" by blast
  then have "B = eye b" using B(2) by (simp add: mat_mul_eye_right [of b])
  then show ?thesis using B(3) by (simp add: mat_mul_eye_left [of b] eye_mat)
qed

lemma get_weight_zero:
  assumes "valid self" and "oft_blocks self = replicate (num_blocks self) (zero_mat (block_size self))"
  shows "get_weight self = Inr (eye (num_blocks self * block_size self))"
proof -
  let ?n = "num_blocks self" and ?b = "block_size self"
  have sb: "skew_blocks (oft_blocks self) = replicate ?n (zero_mat ?b)"
    by (simp add: skew_blocks_def assms(2) sub_transpose_zero)
  have r: "rescaled_Q self = Inr (replicate ?n (zero_mat ?b))"
    using rescaled_Q_valid [OF assms(1)] by (simp add: sb scale3_def scale_zero)
  from get_weight_valid [OF assms(1)] r
  have "get_weight self = Inr (block_diag (map (\<lambda>q. blend (oft_multiplier self) ?b (cayley ?b q))
          (replicate ?n (zero_mat ?b))))"
    by auto
  then show ?thesis by (simp add: cayley_zero blend_eye block_diag_eye)
qed


lemma valid_oft_4x8: "valid oft_4x8"
  by (simp add: valid_def oft_4x8_def tensor3_def zero_mat_mat)



subsection \<open>The example adapter\<close>

lemma rescaled_Q_example:
  "rescaled_Q (example_module mu) = Inr [[[0, 1], [- 1, 0]], [[0, 1], [- 1, 0]]]"
proof -
  have sb: "skew_blocks example_blocks = [[[0, 1], [- 1, 0]], [[0, 1], [- 1, 0]]]"
    unfolding skew_blocks_def example_blocks_def by code_simp
  have n: "norm_t (flatten [[[0, 1], [- 1, 0]], [[0, 1], [- 1, 0 :: real]]]) = 2"
    by (simp add: norm_t_def flatten_def)
  have f: "rescale 4 [[[0, 1], [- 1, 0]], [[0, 1], [- 1, 0]]] = 1"
    unfolding rescale_def n by (simp add: clamp_max_def eps_def)
  have "rescaled_Q (example_module mu)
      = Inr (scale3 (rescale 4 (skew_blocks example_blocks)) (skew_blocks example_blocks))"
    using rescaled_Q_valid [OF valid_example, of mu] by (simp add: example_module_def)
  then show ?thesis unfolding sb f by (simp add: scale3_def scale_m_def)
qed

lemma cayley_example: "cayley 2 [[0, 1], [- 1, 0]] = [[0, 1], [- 1, 0]]"
  by code_simp

lemma blend_one_example: "blend 1 2 [[0, 1], [- 1, 0]] = [[0, 1], [- 1, 0]]"
  by code_simp

lemma block_diag_example: "block_diag [[[0, 1], [- 1, 0]], [[0, 1], [- 1, 0]]] = example_rotation"
  unfolding example_rotation_def by code_simp

lemma get_weight_example: "get_weight (example_module 1) = Inr example_rotation"
proof -
  from get_weight_valid [OF valid_example, of 1]
  have "get_weight (example_module 1)
      = Inr (block_diag (map (\<lambda>q. blend (oft_multiplier (example_module 1)) (block_size (example_module 1))
               (cayley (block_size (example_module 1)) q)) [[[0, 1], [- 1, 0]], [[0, 1], [- 1, 0]]]))"
    by (auto simp: rescaled_Q_example)
  moreover have "map (\<lambda>q. blend (oft_multiplier (example_module 1)) (block_size (example_module 1))
               (cayley (block_size (example_module 1)) q)) [[[0, 1], [- 1, 0]], [[0, 1], [- 1, 0]]]
      = [[[0, 1], [- 1, 0]], [[0, 1], [- 1, 0]]]"
    by (simp add: example_module_def cayley_example blend_one_example)
  ultimately show ?thesis by (simp only: block_diag_example)
qed

lemma get_weight_compute_rotation:
  assumes "init net weights = Inr self"
  shows "get_weight self
     = compute_rotation (oft_blocks self) (alpha self) (out_dim self) (multiplier net)"
proof -
  from assms obtain blocks a od where
    w: "w_oft_blocks weights = Some blocks" "w_alpha weights = Some a"
    and self: "self = \<lparr> oft_blocks = blocks, alpha = a, dim = length blocks,
                     num_blocks = length blocks, out_dim = od,
                     constraint = a * real od, block_size = od div length blocks,
                     oft_multiplier = multiplier net \<rparr>"
    by (auto simp: init_def split: option.splits sum.splits if_splits)
  show ?thesis
    unfolding self
    by (simp add: get_weight_def block_R_def rescaled_Q_def compute_rotation_def Let_def
        clamp_max_def rbind_def split: sum.splits)
qed

section \<open>The multiplier\<close>

text \<open>
  C2 (as amended): the multiplier of the identity blend is the value that \<open>multiplier()\<close>
  returned when the adapter was constructed. \<open>get_weight\<close> reads it from the field
  \<open>oft_multiplier\<close> and from nowhere else, so every later call on this adapter returns the
  rotation of the specification for the multiplier at construction.
\<close>

theorem multiplier_cached_at_construction:
  assumes "init net weights = Inr self"
  shows "get_weight self
     = compute_rotation (oft_blocks self) (alpha self) (out_dim self) (multiplier net)"
  using assms by (rule get_weight_compute_rotation)

theorem multiplier_cached_at_construction_witness:
  "init \<lparr> net_multiplier = 1 \<rparr> (example_weights linear4) = Inr (example_module 1)
   \<and> get_weight (example_module 1)
       = compute_rotation (oft_blocks (example_module 1)) (alpha (example_module 1))
           (out_dim (example_module 1)) (multiplier \<lparr> net_multiplier = 1 \<rparr>)"
  using multiplier_cached_at_construction [OF init_example, of 1] init_example [of 1] by blast

text \<open>
  C2 as stated fails: an adapter constructed while the multiplier was 1 and called when
  the current multiplier is 0 does not return the rotation blended with 0.
\<close>

theorem multiplier_per_call_counterexample:
  "init \<lparr> net_multiplier = 1 \<rparr> (example_weights linear4) = Inr (example_module 1)
   \<and> get_weight (example_module 1)
       \<noteq> compute_rotation (oft_blocks (example_module 1)) (alpha (example_module 1))
           (out_dim (example_module 1)) (multiplier \<lparr> net_multiplier = 0 \<rparr>)"
proof -
  have "compute_rotation (oft_blocks (example_module 0)) (alpha (example_module 0))
          (out_dim (example_module 0)) (multiplier \<lparr> net_multiplier = 0 \<rparr>)
      = get_weight (example_module 0)"
    using get_weight_compute_rotation [OF init_example, of 0] by simp
  also have "\<dots> = Inr (eye 4)"
    using get_weight_multiplier_zero [OF valid_example, of 0] by (simp add: example_module_def)
  finally have spec: "compute_rotation (oft_blocks (example_module 1)) (alpha (example_module 1))
          (out_dim (example_module 1)) (multiplier \<lparr> net_multiplier = 0 \<rparr>) = Inr (eye 4)"
    by (simp add: example_module_def)
  have "example_rotation ! 0 ! 0 = 0" "eye 4 ! 0 ! 0 = 1"
    by (simp_all add: example_rotation_def eye_nth)
  then have "example_rotation \<noteq> eye 4" by force
  then show ?thesis using init_example [of 1] by (simp add: spec get_weight_example)
qed

section \<open>The merge\<close>




text \<open>
  C7 fails on the code: the rotation of four blocks of size 8 is a \<open>32 \<times> 32\<close> matrix, and
  adding it to a weight of shape \<open>(32, 16)\<close> raises, since 16 and 32 do not broadcast.
\<close>

theorem calc_updown_32x16_raises:
  "get_weight oft_4x8 = Inr (eye 32) \<and> rows (eye 32) = 32 \<and> cols (eye 32) = 32
   \<and> rows weight_32x16 = 32 \<and> cols weight_32x16 = 16
   \<and> calc_updown (\<lambda>updown orig_weight output_shape. updown) oft_4x8 weight_32x16 = Inl RuntimeError"
proof -
  have g: "get_weight oft_4x8 = Inr (eye 32)"
    using get_weight_zero [OF valid_oft_4x8] by (simp add: oft_4x8_def)
  have w: "mat 32 16 weight_32x16" by (simp add: mat_def weight_32x16_def)
  have shp: "rows weight_32x16 = 32" "cols weight_32x16 = 16" "rows (eye 32) = 32" "cols (eye 32) = 32"
    using w eye_mat [of 32] by (simp_all add: mat_rows mat_cols [of 32 16] mat_cols_square)
  then have "tadd weight_32x16 (eye 32) = Inl RuntimeError"
    by (simp add: tadd_def broadcast2_def bdim_def)
  then show ?thesis using g shp
    by (simp add: calc_updown_def calc_updown_R_unfold rbind_def)
qed

section \<open>Singular denominators\<close>













end
